theory Spec2Isabelle
  imports Complex_Main "HOL-Library.AList" "HOL-Library.Log_Nat" "HOL-Library.Word"
begin

unbundle bit_operations_syntax

section \<open>JavaScript strings\<close>

text \<open>
  A JavaScript string is a sequence of code units. The model uses \<open>string\<close> (a list of
  \<open>char\<close>), read as the code units U+0000 to U+00FF; \<open>length\<close> is then the
  \<open>.length\<close> of the source. The whitespace of \<open>\s\<close> and of \<open>trim()\<close> in that range
  is TAB, LF, VT, FF, CR, SPACE and NBSP.
\<close>

definition LF :: char where
  "LF = CHR 0x0A"

definition isWhiteSpace :: "char \<Rightarrow> bool" where
  "isWhiteSpace c \<longleftrightarrow> c \<in> {CHR 0x09, CHR 0x0A, CHR 0x0B, CHR 0x0C, CHR 0x0D, CHR 0x20, CHR 0xA0}"

definition trim :: "string \<Rightarrow> string" where
  "trim s = rev (dropWhile isWhiteSpace (rev (dropWhile isWhiteSpace s)))"

text \<open>\<open>s.slice(-n)\<close>: the last \<open>n\<close> code units, the whole string when it is shorter.\<close>

definition slice_last :: "nat \<Rightarrow> string \<Rightarrow> string" where
  "slice_last n s = drop (length s - n) s"

section \<open>Documents\<close>

text \<open>
  The document that the file watcher hands over: \<open>{ id, path, content, frontmatter,
  lastModified }\<close>. Of the front matter the engine reads \<open>title\<close> and \<open>tags\<close>; \<open>tags\<close>
  is an array, a single value or absent.
\<close>

datatype fm_tags = NoTags | TagArray "string list" | TagScalar string

record frontmatter =
  fm_title :: "string option"
  fm_tags :: fm_tags

record document =
  doc_id :: string
  path :: string
  content :: string
  frontmatter :: "frontmatter option"
  lastModified :: nat

section \<open>Chunker\<close>

text \<open>
  \<open>text.split(/\n\s*\n/)\<close>. \<open>ws_star_nl s\<close> matches \<open>\s*\n\<close> at the start of \<open>s\<close>
  the way the backtracking matcher does: the star takes a whitespace unit and goes on, and
  only when the rest fails does it stop and try the line feed here. The result is the
  number of code units of the match.
\<close>

fun ws_star_nl :: "string \<Rightarrow> nat option" where
  "ws_star_nl [] = None"
| "ws_star_nl (c # cs) =
     (if isWhiteSpace c then
        (case ws_star_nl cs of
           Some n \<Rightarrow> Some (Suc n)
         | None \<Rightarrow> if c = LF then Some 1 else None)
      else if c = LF then Some 1 else None)"

text \<open>
  The split loop of the source's runtime: at each position try the separator; on a match
  close the current piece and resume after the match, otherwise move one unit on. The
  piece still open at the end of the string is always pushed.
\<close>

fun split_loop :: "string \<Rightarrow> string \<Rightarrow> string list" where
  "split_loop piece [] = [piece]"
| "split_loop piece (c # cs) =
     (if c = LF then
        (case ws_star_nl cs of
           Some n \<Rightarrow> piece # split_loop [] (drop n cs)
         | None \<Rightarrow> split_loop (piece @ [c]) cs)
      else split_loop (piece @ [c]) cs)"

definition split_paragraphs :: "string \<Rightarrow> string list" where
  "split_paragraphs s = split_loop [] s"

record chunk =
  chunk_text :: string
  chunk_start :: nat

definition maxChunkSize :: nat where
  "maxChunkSize = 1000"

definition overlap :: nat where
  "overlap = 100"

text \<open>The body of \<open>for (const paragraph of paragraphs)\<close>, on the state (chunks, currentChunk).\<close>

fun chunk_loop :: "string list \<Rightarrow> chunk list \<Rightarrow> string \<Rightarrow> chunk list \<times> string" where
  "chunk_loop [] chunks currentChunk = (chunks, currentChunk)"
| "chunk_loop (paragraph # ps) chunks currentChunk =
     (if length currentChunk + length paragraph > maxChunkSize \<and> length currentChunk > 0 then
        chunk_loop ps
          (chunks @ [\<lparr>chunk_text = trim currentChunk,
                      chunk_start = length chunks * (maxChunkSize - overlap)\<rparr>])
          (slice_last overlap currentChunk @ paragraph)
      else
        chunk_loop ps chunks
          (currentChunk @ (if currentChunk \<noteq> [] then [LF, LF] else []) @ paragraph))"

definition chunkDocument :: "document \<Rightarrow> chunk list" where
  "chunkDocument document =
     (let text = content document;
          (chunks, currentChunk) = chunk_loop (split_paragraphs text) [] [];
          chunks' = (if trim currentChunk \<noteq> [] then
                       chunks @ [\<lparr>chunk_text = trim currentChunk,
                                   chunk_start = length chunks * (maxChunkSize - overlap)\<rparr>]
                     else chunks)
      in if length chunks' > 0 then chunks' else [\<lparr>chunk_text = trim text, chunk_start = 0\<rparr>])"

section \<open>More string operations of the runtime\<close>

text \<open>
  \<open>toLowerCase()\<close> on the code units below U+0100: the ASCII capitals and the Latin-1
  capitals U+00C0 to U+00DE (without the multiplication sign U+00D7) move up by 32.
\<close>

definition toLowerCase_unit :: "char \<Rightarrow> char" where
  "toLowerCase_unit c =
     (let n = (of_char c :: nat)
      in if (0x41 \<le> n \<and> n \<le> 0x5A) \<or> (0xC0 \<le> n \<and> n \<le> 0xD6) \<or> (0xD8 \<le> n \<and> n \<le> 0xDE)
         then char_of (n + 32) else c)"

definition toLowerCase :: "string \<Rightarrow> string" where
  "toLowerCase s = map toLowerCase_unit s"

fun startsWith :: "string \<Rightarrow> string \<Rightarrow> bool" where
  "startsWith s [] = True"
| "startsWith [] (x # xs) = False"
| "startsWith (c # cs) (x # xs) = (c = x \<and> startsWith cs xs)"

fun includes_str :: "string \<Rightarrow> string \<Rightarrow> bool" where
  "includes_str [] sub = (sub = [])"
| "includes_str (c # cs) sub = (startsWith (c # cs) sub \<or> includes_str cs sub)"

text \<open>
  \<open>s.split(/\s+/)\<close>: a separator is a maximal run of whitespace; a run at either end of
  the string leaves an empty piece there, and the empty string gives one empty piece.
\<close>

function split_ws_loop :: "string \<Rightarrow> string \<Rightarrow> string list" where
  "split_ws_loop piece [] = [piece]"
| "split_ws_loop piece (c # cs) =
     (if isWhiteSpace c then piece # split_ws_loop [] (dropWhile isWhiteSpace cs)
      else split_ws_loop (piece @ [c]) cs)"
  by pat_completeness auto
termination
  by (relation "measure (\<lambda>(piece, s). length s)")
     (auto simp: length_dropWhile_le le_imp_less_Suc)

definition split_ws :: "string \<Rightarrow> string list" where
  "split_ws s = split_ws_loop [] s"

text \<open>\<open>s.padStart(2, '0')\<close>.\<close>

definition padStart2 :: "string \<Rightarrow> string" where
  "padStart2 s = replicate (2 - length s) (CHR ''0'') @ s"

text \<open>A non-negative integer in a template literal: its decimal digits.\<close>

definition digit_char :: "nat \<Rightarrow> char" where
  "digit_char d = char_of (48 + d)"

fun decimal :: "nat \<Rightarrow> string" where
  "decimal n = (if n < 10 then [digit_char n] else decimal (n div 10) @ [digit_char (n mod 10)])"

declare decimal.simps [simp del]

text \<open>\<open>[...new Set(xs)]\<close>: the elements in the order of their first occurrence.\<close>

fun set_order :: "string list \<Rightarrow> string list \<Rightarrow> string list" where
  "set_order seen [] = seen"
| "set_order seen (x # xs) = (if x \<in> set seen then set_order seen xs else set_order (seen @ [x]) xs)"

definition new_Set :: "string list \<Rightarrow> string list" where
  "new_Set xs = set_order [] xs"

section \<open>JavaScript numbers\<close>

text \<open>
  A score is a JavaScript number, an IEEE 754 double. The model writes a double as the
  rational it denotes. \<open>fl x\<close> is the double nearest to \<open>x\<close>, ties going to the even
  significand: 53 bits, exponents from -1022 on, subnormals below (no score comes near the
  largest double, so infinity is not represented). A decimal literal of the source is
  \<open>fl\<close> of its value, and \<open>a + b\<close> is the sum rounded once.
\<close>

definition pow2 :: "int \<Rightarrow> rat" where
  "pow2 k = (if 0 \<le> k then 2 ^ nat k else 1 / 2 ^ nat (- k))"

text \<open>The exponent \<open>e\<close> with \<open>2^e \<le> |x| < 2^(e+1)\<close>, for \<open>x\<close> other than 0.\<close>

definition ilog2 :: "rat \<Rightarrow> int" where
  "ilog2 x =
     (let (a, b) = quotient_of \<bar>x\<bar>;
          k = bitlen a - bitlen b
      in if pow2 k \<le> \<bar>x\<bar> then k else k - 1)"

definition round_half_even :: "rat \<Rightarrow> int" where
  "round_half_even r =
     (let f = \<lfloor>r\<rfloor>; d = r - of_int f
      in if d < 1 / 2 then f else if 1 / 2 < d then f + 1 else if even f then f else f + 1)"

definition fl :: "rat \<Rightarrow> rat" where
  "fl x =
     (if x = 0 then 0
      else let e = max (ilog2 x) (- 1022); ulp = pow2 (e - 52)
           in of_int (round_half_even (x / ulp)) * ulp)"

definition js_add :: "rat \<Rightarrow> rat \<Rightarrow> rat" where
  "js_add a b = fl (a + b)"

section \<open>Query expansion\<close>

definition isDigit :: "char \<Rightarrow> bool" where
  "isDigit c \<longleftrightarrow> (let n = (of_char c :: nat) in 0x30 \<le> n \<and> n \<le> 0x39)"

text \<open>The class \<open>\w\<close> that the word boundary \<open>\b\<close> is defined by.\<close>

definition isWordChar :: "char \<Rightarrow> bool" where
  "isWordChar c \<longleftrightarrow>
     (let n = (of_char c :: nat)
      in (0x30 \<le> n \<and> n \<le> 0x39) \<or> (0x41 \<le> n \<and> n \<le> 0x5A) \<or> (0x61 \<le> n \<and> n \<le> 0x7A) \<or> n = 0x5F)"

text \<open>
  \<open>\b\<close> between the unit before a position and the unit after it (\<open>None\<close> at either end
  of the string): exactly one of the two is a word character.
\<close>

definition word_boundary :: "char option \<Rightarrow> char option \<Rightarrow> bool" where
  "word_boundary prev nxt \<longleftrightarrow>
     (case prev of None \<Rightarrow> False | Some c \<Rightarrow> isWordChar c)
       \<noteq> (case nxt of None \<Rightarrow> False | Some c \<Rightarrow> isWordChar c)"

definition next_unit :: "string \<Rightarrow> char option" where
  "next_unit s = (case s of [] \<Rightarrow> None | c # _ \<Rightarrow> Some c)"

definition monthMap :: "(string \<times> string) list" where
  "monthMap =
     [(''january'', ''01''), (''february'', ''02''), (''march'', ''03''), (''april'', ''04''),
      (''may'', ''05''), (''june'', ''06''), (''july'', ''07''), (''august'', ''08''),
      (''september'', ''09''), (''october'', ''10''), (''november'', ''11''), (''december'', ''12'')]"

definition month_alternatives :: "string list" where
  "month_alternatives =
     [''january'', ''february'', ''march'', ''april'', ''may'', ''june'', ''july'', ''august'',
      ''september'', ''october'', ''november'', ''december'']"

text \<open>
  The date pattern
  \<open>/\b(january|...|december)\s+(\d{1,2})(?:st|nd|rd|th)?\b/\<close>, matched the way the
  backtracking matcher does, piece by piece from the right end of the pattern.

  \<open>suffix_boundary prev s\<close> is \<open>(?:st|nd|rd|th)?\b\<close> at \<open>s\<close>, the unit before being
  \<open>prev\<close>: first with the suffix taken, then without it.
\<close>

definition suffix_boundary :: "char \<Rightarrow> string \<Rightarrow> bool" where
  "suffix_boundary prev s \<longleftrightarrow>
     (\<exists>suf \<in> set [''st'', ''nd'', ''rd'', ''th''].
         startsWith s suf \<and> word_boundary (Some (last suf)) (next_unit (drop 2 s)))
     \<or> word_boundary (Some prev) (next_unit s)"

text \<open>
  \<open>(\d{1,2})(?:st|nd|rd|th)?\b\<close>: two digits are tried before one. The result is the
  text of the group, \<open>match[2]\<close>.
\<close>

definition day_group :: "string \<Rightarrow> string option" where
  "day_group s =
     (case s of
        d1 # d2 # r \<Rightarrow>
          if isDigit d1 \<and> isDigit d2 \<and> suffix_boundary d2 r then Some [d1, d2]
          else if isDigit d1 \<and> suffix_boundary d1 (d2 # r) then Some [d1]
          else None
      | [d1] \<Rightarrow> if isDigit d1 \<and> suffix_boundary d1 [] then Some [d1] else None
      | [] \<Rightarrow> None)"

text \<open>\<open>\s*\<close> followed by the day: the star gives units back only when the rest fails.\<close>

fun ws_star_day :: "string \<Rightarrow> string option" where
  "ws_star_day [] = day_group []"
| "ws_star_day (c # cs) =
     (if isWhiteSpace c then
        (case ws_star_day cs of Some d \<Rightarrow> Some d | None \<Rightarrow> day_group (c # cs))
      else day_group (c # cs))"

definition ws_plus_day :: "string \<Rightarrow> string option" where
  "ws_plus_day s = (case s of c # cs \<Rightarrow> if isWhiteSpace c then ws_star_day cs else None | [] \<Rightarrow> None)"

text \<open>The alternatives of the month group in their order, each followed by the rest.\<close>

fun month_then_day :: "string list \<Rightarrow> string \<Rightarrow> (string \<times> string) option" where
  "month_then_day [] s = None"
| "month_then_day (m # ms) s =
     (if startsWith s m then
        (case ws_plus_day (drop (length m) s) of
           Some d \<Rightarrow> Some (m, d)
         | None \<Rightarrow> month_then_day ms s)
      else month_then_day ms s)"

definition date_at :: "char option \<Rightarrow> string \<Rightarrow> (string \<times> string) option" where
  "date_at prev s =
     (if word_boundary prev (next_unit s) then month_then_day month_alternatives s else None)"

text \<open>
  \<open>lowerQuery.match(...)\<close> without the global flag: the match at the leftmost position
  that has one. The result is \<open>(match[1], match[2])\<close>.
\<close>

fun date_search :: "char option \<Rightarrow> string \<Rightarrow> (string \<times> string) option" where
  "date_search prev [] = date_at prev []"
| "date_search prev (c # cs) =
     (case date_at prev (c # cs) of
        Some m \<Rightarrow> Some m
      | None \<Rightarrow> date_search (Some c) cs)"

definition date_match :: "string \<Rightarrow> (string \<times> string) option" where
  "date_match s = date_search None s"

text \<open>\<open>monthMap[match[1]]\<close> in a template literal; a missing key would print as \<open>undefined\<close>.\<close>

definition month_code :: "string \<Rightarrow> string" where
  "month_code m = (case map_of monthMap m of Some code \<Rightarrow> code | None \<Rightarrow> ''undefined'')"

definition stopWords :: "string list" where
  "stopWords = [''the'', ''and'', ''for'', ''from'', ''about'', ''can'', ''you'', ''tell'',
     ''anything'', ''notes'']"

text \<open>
  \<open>expandQuery\<close> reads the clock once, through \<open>new Date().getFullYear()\<close>; the model
  takes that year as its first argument.
\<close>

definition expandQuery :: "nat \<Rightarrow> string \<Rightarrow> string list" where
  "expandQuery year query =
     (let lowerQuery = toLowerCase query;
          match = date_match lowerQuery;
          queries1 =
            (case match of
               Some (match1, match2) \<Rightarrow>
                 (let month = month_code match1;
                      day = padStart2 match2;
                      dateVariations =
                        [month @ ''-'' @ day,
                         decimal year @ ''-'' @ month @ ''-'' @ day,
                         month @ ''/'' @ day,
                         month @ day,
                         decimal year @ month @ day,
                         match1 @ '' '' @ match2,
                         match1 @ ''-'' @ match2,
                         day,
                         month]
                  in [query] @ dateVariations @ dateVariations)
             | None \<Rightarrow> [query]);
          meaningfulWords =
            filter (\<lambda>word. length word > 2 \<and> word \<notin> set stopWords) (split_ws lowerQuery);
          queries2 = queries1 @ meaningfulWords;
          queries3 = queries2 @
            (if includes_str lowerQuery ''meeting'' then
               [''## Meetings'', ''Meetings & Appointments'', ''meeting notes'', ''appointment'',
                ''Meeting'', ''meetings'']
             else []);
          queries4 = queries3 @
            (if includes_str lowerQuery ''daily'' then
               [''daily note'', ''## Daily'', ''Daily'', ''today'']
             else []);
          queries5 = queries4 @
            (if includes_str lowerQuery ''appointment'' then
               [''## Appointments'', ''meeting'', ''schedule'', ''Appointment'']
             else []);
          queries6 = queries5 @
            (case match of
               Some (match1, match2) \<Rightarrow>
                 if includes_str lowerQuery ''meeting'' then
                   (let month = month_code match1; day = padStart2 match2
                    in [month @ ''-'' @ day @ '' meeting'',
                        month @ ''-'' @ day @ '' Meeting'',
                        ''Meeting '' @ month @ ''-'' @ day])
                 else []
             | None \<Rightarrow> [])
      in new_Set queries6)"

section \<open>Point identity\<close>

text \<open>
  \<open>crypto.createHash('md5').update(input).digest('hex')\<close>: the string is encoded as
  UTF-8, hashed with MD5 (RFC 1321) and the 16 bytes of the digest are printed as
  lower-case hexadecimal.
\<close>

type_synonym byte = "8 word"

definition utf8 :: "string \<Rightarrow> byte list" where
  "utf8 s = concat (map (\<lambda>c. let n = (of_char c :: nat) in
       if n < 0x80 then [word_of_nat n]
       else [word_of_nat (0xC0 + n div 64), word_of_nat (0x80 + n mod 64)]) s)"

definition md5_shifts :: "nat list" where
  "md5_shifts =
     [7, 12, 17, 22, 7, 12, 17, 22, 7, 12, 17, 22, 7, 12, 17, 22,
      5, 9, 14, 20, 5, 9, 14, 20, 5, 9, 14, 20, 5, 9, 14, 20,
      4, 11, 16, 23, 4, 11, 16, 23, 4, 11, 16, 23, 4, 11, 16, 23,
      6, 10, 15, 21, 6, 10, 15, 21, 6, 10, 15, 21, 6, 10, 15, 21]"

definition md5_K :: "32 word list" where
  "md5_K =
     [0xd76aa478, 0xe8c7b756, 0x242070db, 0xc1bdceee,
      0xf57c0faf, 0x4787c62a, 0xa8304613, 0xfd469501,
      0x698098d8, 0x8b44f7af, 0xffff5bb1, 0x895cd7be,
      0x6b901122, 0xfd987193, 0xa679438e, 0x49b40821,
      0xf61e2562, 0xc040b340, 0x265e5a51, 0xe9b6c7aa,
      0xd62f105d, 0x02441453, 0xd8a1e681, 0xe7d3fbc8,
      0x21e1cde6, 0xc33707d6, 0xf4d50d87, 0x455a14ed,
      0xa9e3e905, 0xfcefa3f8, 0x676f02d9, 0x8d2a4c8a,
      0xfffa3942, 0x8771f681, 0x6d9d6122, 0xfde5380c,
      0xa4beea44, 0x4bdecfa9, 0xf6bb4b60, 0xbebfbc70,
      0x289b7ec6, 0xeaa127fa, 0xd4ef3085, 0x04881d05,
      0xd9d4d039, 0xe6db99e5, 0x1fa27cf8, 0xc4ac5665,
      0xf4292244, 0x432aff97, 0xab9423a7, 0xfc93a039,
      0x655b59c3, 0x8f0ccc92, 0xffeff47d, 0x85845dd1,
      0x6fa87e4f, 0xfe2ce6e0, 0xa3014314, 0x4e0811a1,
      0xf7537e82, 0xbd3af235, 0x2ad7d2bb, 0xeb86d391]"

text \<open>
  Padding: one byte 0x80, zero bytes up to 56 modulo 64, then the length of the message
  in bits as 64 bits, least significant byte first.
\<close>

definition md5_pad :: "byte list \<Rightarrow> byte list" where
  "md5_pad msg =
     (let n = length msg;
          zeros = (119 - n mod 64) mod 64;
          bits = (word_of_nat (8 * n) :: 64 word)
      in msg @ [0x80] @ replicate zeros 0 @ map (\<lambda>i. ucast (drop_bit (8 * i) bits)) [0..<8])"

definition le32 :: "byte list \<Rightarrow> 32 word" where
  "le32 bs = foldr (\<lambda>b w. ucast b OR push_bit 8 w) bs 0"

fun md5_blocks :: "nat \<Rightarrow> byte list \<Rightarrow> 32 word list list" where
  "md5_blocks 0 bs = []"
| "md5_blocks (Suc n) bs =
     map (\<lambda>j. le32 (take 4 (drop (4 * j) bs))) [0..<16] # md5_blocks n (drop 64 bs)"

definition md5_round :: "32 word list \<Rightarrow> 32 word \<times> 32 word \<times> 32 word \<times> 32 word \<Rightarrow> nat
    \<Rightarrow> 32 word \<times> 32 word \<times> 32 word \<times> 32 word" where
  "md5_round M st i =
     (case st of (A, B, C, D) \<Rightarrow>
        (let (F, g) =
               (if i < 16 then ((B AND C) OR (NOT B AND D), i)
                else if i < 32 then ((D AND B) OR (NOT D AND C), (5 * i + 1) mod 16)
                else if i < 48 then (B XOR C XOR D, (3 * i + 5) mod 16)
                else (C XOR (B OR NOT D), (7 * i) mod 16));
             F' = F + A + md5_K ! i + M ! g
         in (D, B + word_rotl (md5_shifts ! i) F', B, C)))"

definition md5_block :: "32 word \<times> 32 word \<times> 32 word \<times> 32 word \<Rightarrow> 32 word list
    \<Rightarrow> 32 word \<times> 32 word \<times> 32 word \<times> 32 word" where
  "md5_block h M =
     (case h of (a0, b0, c0, d0) \<Rightarrow>
        (case foldl (md5_round M) (a0, b0, c0, d0) [0..<64] of
           (A, B, C, D) \<Rightarrow> (a0 + A, b0 + B, c0 + C, d0 + D)))"

definition word_bytes_le :: "32 word \<Rightarrow> byte list" where
  "word_bytes_le w = map (\<lambda>i. ucast (drop_bit (8 * i) w)) [0..<4]"

definition md5 :: "byte list \<Rightarrow> byte list" where
  "md5 msg =
     (let padded = md5_pad msg;
          blocks = md5_blocks (length padded div 64) padded
      in case foldl md5_block (0x67452301, 0xefcdab89, 0x98badcfe, 0x10325476) blocks of
           (a, b, c, d) \<Rightarrow> word_bytes_le a @ word_bytes_le b @ word_bytes_le c @ word_bytes_le d)"

definition hex_digit :: "nat \<Rightarrow> char" where
  "hex_digit d = (if d < 10 then char_of (48 + d) else char_of (87 + d))"

definition hex :: "byte list \<Rightarrow> string" where
  "hex bs = concat (map (\<lambda>b. [hex_digit (unat b div 16), hex_digit (unat b mod 16)]) bs)"

definition generatePointId :: "string \<Rightarrow> nat \<Rightarrow> string" where
  "generatePointId filePath chunkIndex =
     (let input = filePath @ ''_chunk_'' @ decimal chunkIndex
      in hex (md5 (utf8 input)))"

section \<open>Title and tags\<close>

text \<open>\<open>s.split(sep)\<close> with a one-unit string separator.\<close>

fun split_on_loop :: "char \<Rightarrow> string \<Rightarrow> string \<Rightarrow> string list" where
  "split_on_loop sep piece [] = [piece]"
| "split_on_loop sep piece (c # cs) =
     (if c = sep then piece # split_on_loop sep [] cs else split_on_loop sep (piece @ [c]) cs)"

definition split_on :: "char \<Rightarrow> string \<Rightarrow> string list" where
  "split_on sep s = split_on_loop sep [] s"

text \<open>The units the dot of a pattern does not match, among those below U+0100.\<close>

definition isLineTerminator :: "char \<Rightarrow> bool" where
  "isLineTerminator c \<longleftrightarrow> c = CHR 0x0A \<or> c = CHR 0x0D"

text \<open>\<open>(.+)$\<close>: at least one unit, none of them a line terminator, up to the end.\<close>

definition dot_plus_end :: "string \<Rightarrow> string option" where
  "dot_plus_end s = (if s \<noteq> [] \<and> (\<forall>c\<in>set s. \<not> isLineTerminator c) then Some s else None)"

fun ws_star_rest :: "string \<Rightarrow> string option" where
  "ws_star_rest [] = dot_plus_end []"
| "ws_star_rest (c # cs) =
     (if isWhiteSpace c then
        (case ws_star_rest cs of Some r \<Rightarrow> Some r | None \<Rightarrow> dot_plus_end (c # cs))
      else dot_plus_end (c # cs))"

text \<open>\<open>line.match(/^#\s+(.+)$/)\<close>; the result is \<open>match[1]\<close>.\<close>

definition heading_match :: "string \<Rightarrow> string option" where
  "heading_match line =
     (case line of
        h # c # cs \<Rightarrow> if h = CHR ''#'' \<and> isWhiteSpace c then ws_star_rest cs else None
      | _ \<Rightarrow> None)"

fun first_heading :: "string list \<Rightarrow> string option" where
  "first_heading [] = None"
| "first_heading (line # lines) =
     (case heading_match line of Some m \<Rightarrow> Some (trim m) | None \<Rightarrow> first_heading lines)"

text \<open>\<open>path.replace(/\.md$/, '')\<close>.\<close>

definition strip_md :: "string \<Rightarrow> string" where
  "strip_md p = (if startsWith (rev p) (rev ''.md'') then take (length p - 3) p else p)"

definition extractTitle :: "document \<Rightarrow> string" where
  "extractTitle document =
     (case (case frontmatter document of None \<Rightarrow> None | Some fm \<Rightarrow> fm_title fm) of
        Some t \<Rightarrow>
          if t \<noteq> [] then t
          else (case first_heading (split_on LF (content document)) of
                  Some h \<Rightarrow> h
                | None \<Rightarrow> last (split_on (CHR ''/'') (strip_md (path document))))
      | None \<Rightarrow>
          (case first_heading (split_on LF (content document)) of
             Some h \<Rightarrow> h
           | None \<Rightarrow> last (split_on (CHR ''/'') (strip_md (path document)))))"

definition isTagChar :: "char \<Rightarrow> bool" where
  "isTagChar c \<longleftrightarrow> isWordChar c \<or> c = CHR ''-''"

text \<open>\<open>content.match(/#[\w-]+/g)\<close>: all matches from left to right, none overlapping.\<close>

function tag_matches :: "string \<Rightarrow> string list" where
  "tag_matches [] = []"
| "tag_matches (c # cs) =
     (if c = CHR ''#'' \<and> takeWhile isTagChar cs \<noteq> [] then
        (c # takeWhile isTagChar cs) # tag_matches (dropWhile isTagChar cs)
      else tag_matches cs)"
  by pat_completeness auto
termination
  by (relation "measure length") (auto simp: length_dropWhile_le le_imp_less_Suc)

definition extractTags :: "document \<Rightarrow> string list" where
  "extractTags document =
     (let tags1 =
            (case frontmatter document of
               None \<Rightarrow> []
             | Some fm \<Rightarrow>
                 (case fm_tags fm of
                    NoTags \<Rightarrow> []
                  | TagArray ts \<Rightarrow> ts
                  | TagScalar t \<Rightarrow> if t \<noteq> [] then [t] else []));
          tagMatches = tag_matches (content document)
      in new_Set (tags1 @ map (drop 1) tagMatches))"

section \<open>Points, hits and the external services\<close>

text \<open>
  The score that the store returns with a point is a number of the store's; the merge and
  the sort only compare scores, and the comparison of two doubles is that of their values.
\<close>

type_synonym vector = "rat list"

record payload =
  file_path :: string
  chunk_index :: nat
  payload_text :: string
  title :: "string option"
  tags :: "string list"
  payload_frontmatter :: "frontmatter option"
  last_modified :: nat

record point =
  point_id :: string
  vector :: vector
  payload :: payload

text \<open>What a similarity query returns for a point: \<open>point.score\<close>, \<open>point.payload\<close>.\<close>

record scored_point =
  sp_score :: rat
  sp_payload :: payload

datatype searchType = semantic | full_text

text \<open>
  An entry of \<open>allResults\<close>: \<open>{ score, searchQuery, searchType, ...point.payload }\<close>, the
  fields of the payload beside the three of the hit.
\<close>

record hit = payload +
  score :: rat
  searchQuery :: string
  searchType :: searchType

definition make_hit :: "rat \<Rightarrow> string \<Rightarrow> searchType \<Rightarrow> payload \<Rightarrow> hit" where
  "make_hit s q t p =
     \<lparr>file_path = file_path p, chunk_index = chunk_index p, payload_text = payload_text p,
      title = title p, tags = tags p, payload_frontmatter = payload_frontmatter p,
      last_modified = last_modified p, score = s, searchQuery = q, searchType = t\<rparr>"

datatype errorCode = InvalidParams | InternalError

datatype error = Error string | TypeError string | McpError errorCode string

definition message :: "error \<Rightarrow> string" where
  "message e = (case e of Error m \<Rightarrow> m | TypeError m \<Rightarrow> m | McpError c m \<Rightarrow> m)"

text \<open>
  The network: the embedding service and the vector store. A request is answered from a
  state of the outside world \<open>'w\<close>, which the answer may change, by an error (the
  rejected promise) or by a value. A scroll answer is read through \<open>points?.forEach\<close>
  and \<open>point.payload\<close> only: it is the payloads of its points, \<open>None\<close> when \<open>points\<close> is
  absent.
\<close>

record 'w services =
  embeddings :: "string \<Rightarrow> 'w \<Rightarrow> (error + vector) \<times> 'w"
  qdrant_search :: "vector \<Rightarrow> nat \<Rightarrow> 'w \<Rightarrow> (error + scored_point list) \<times> 'w"
  qdrant_scroll :: "string \<Rightarrow> nat \<Rightarrow> 'w \<Rightarrow> (error + payload list option) \<times> 'w"
  qdrant_upsert :: "point list \<Rightarrow> 'w \<Rightarrow> (error + unit) \<times> 'w"

text \<open>Every request that was sent, with its answer, in the order of sending.\<close>

datatype call =
    EmbedCall string "error + vector"
  | SearchCall vector nat "error + scored_point list"
  | ScrollCall string nat "error + payload list option"
  | UpsertCall "point list" "error + unit"

record 'w state =
  calls :: "call list"
  world :: 'w

definition generateEmbedding :: "'w services \<Rightarrow> string \<Rightarrow> 'w state \<Rightarrow> (error + vector) \<times> 'w state" where
  "generateEmbedding svc txt st =
     (case embeddings svc txt (world st) of
        (r, w) \<Rightarrow> (r, \<lparr>calls = calls st @ [EmbedCall txt r], world = w\<rparr>))"

definition store_search :: "'w services \<Rightarrow> vector \<Rightarrow> nat \<Rightarrow> 'w state
    \<Rightarrow> (error + scored_point list) \<times> 'w state" where
  "store_search svc v n st =
     (case qdrant_search svc v n (world st) of
        (r, w) \<Rightarrow> (r, \<lparr>calls = calls st @ [SearchCall v n r], world = w\<rparr>))"

definition store_scroll :: "'w services \<Rightarrow> string \<Rightarrow> nat \<Rightarrow> 'w state
    \<Rightarrow> (error + payload list option) \<times> 'w state" where
  "store_scroll svc q n st =
     (case qdrant_scroll svc q n (world st) of
        (r, w) \<Rightarrow> (r, \<lparr>calls = calls st @ [ScrollCall q n r], world = w\<rparr>))"

definition store_upsert :: "'w services \<Rightarrow> point list \<Rightarrow> 'w state \<Rightarrow> (error + unit) \<times> 'w state" where
  "store_upsert svc ps st =
     (case qdrant_upsert svc ps (world st) of
        (r, w) \<Rightarrow> (r, \<lparr>calls = calls st @ [UpsertCall ps r], world = w\<rparr>))"

section \<open>Indexer\<close>

text \<open>
  The loop of \<open>processDocument\<close> over the chunks. A rejected embedding request leaves the
  loop and the function at once: the \<open>catch\<close> logs the error and throws it again.
\<close>

fun embed_chunks :: "'w services \<Rightarrow> document \<Rightarrow> chunk list \<Rightarrow> nat \<Rightarrow> point list \<Rightarrow> 'w state
    \<Rightarrow> (error + point list) \<times> 'w state" where
  "embed_chunks svc document [] i points st = (Inr points, st)"
| "embed_chunks svc document (chunk # rest) i points st =
     (case generateEmbedding svc (chunk_text chunk) st of
        (Inl e, st') \<Rightarrow> (Inl e, st')
      | (Inr v, st') \<Rightarrow>
          embed_chunks svc document rest (Suc i)
            (points @
               [\<lparr>point_id = generatePointId (doc_id document) i,
                 vector = v,
                 payload =
                   \<lparr>file_path = path document, chunk_index = i, payload_text = chunk_text chunk,
                    title = Some (extractTitle document), tags = extractTags document,
                    payload_frontmatter = frontmatter document,
                    last_modified = lastModified document\<rparr>\<rparr>])
            st')"

definition processDocument :: "'w services \<Rightarrow> document \<Rightarrow> 'w state \<Rightarrow> (error + unit) \<times> 'w state" where
  "processDocument svc document st =
     (let chunks = chunkDocument document
      in case embed_chunks svc document chunks 0 [] st of
           (Inl e, st') \<Rightarrow> (Inl e, st')
         | (Inr points, st') \<Rightarrow> store_upsert svc points st')"

section \<open>Hybrid retrieval\<close>

definition calculateTextScore :: "string \<Rightarrow> payload \<Rightarrow> rat" where
  "calculateTextScore query p =
     (let queryLower = toLowerCase query;
          txt = toLowerCase (payload_text p);
          ttl = (case title p of Some t \<Rightarrow> toLowerCase t | None \<Rightarrow> []);
          filePath = toLowerCase (file_path p);
          score0 = fl (5 / 10);
          score1 = (if includes_str txt queryLower then js_add score0 (fl (3 / 10)) else score0);
          score2 = (if includes_str ttl queryLower then js_add score1 (fl (4 / 10)) else score1);
          score3 = (if includes_str filePath queryLower then js_add score2 (fl (2 / 10)) else score2);
          queryWords = split_ws queryLower;
          score4 = foldl (\<lambda>sc word.
                     if length word > 2 then
                       (let s1 = (if includes_str txt word then js_add sc (fl (1 / 10)) else sc);
                            s2 = (if includes_str ttl word then js_add s1 (fl (15 / 100)) else s1)
                        in if includes_str filePath word then js_add s2 (fl (5 / 100)) else s2)
                     else sc) score3 queryWords;
          score5 = (if startsWith txt queryLower then js_add score4 (fl (2 / 10)) else score4)
      in min score5 1)"

text \<open>The key of \<open>allResults\<close>: \<open>`${file_path}_${chunk_index}`\<close>.\<close>

definition result_key :: "'a payload_scheme \<Rightarrow> string" where
  "result_key p = file_path p @ ''_'' @ decimal (chunk_index p)"

text \<open>
  \<open>allResults\<close> is a \<open>Map\<close>: a list of entries in the order of first insertion, one per
  key; \<open>set\<close> on a key that is present replaces the value in place. The statement
  \<open>if (!allResults.has(key) || allResults.get(key).score < s) allResults.set(key, h)\<close>
  occurs in both legs.
\<close>

definition set_if_better :: "string \<Rightarrow> hit \<Rightarrow> (string \<times> hit) list \<Rightarrow> (string \<times> hit) list" where
  "set_if_better key h allResults =
     (case map_of allResults key of
        None \<Rightarrow> AList.update key h allResults
      | Some old \<Rightarrow> if score old < score h then AList.update key h allResults else allResults)"

definition semantic_point :: "string \<Rightarrow> (string \<times> hit) list \<Rightarrow> scored_point \<Rightarrow> (string \<times> hit) list" where
  "semantic_point variant allResults pt =
     set_if_better (result_key (sp_payload pt))
       (make_hit (sp_score pt) variant semantic (sp_payload pt)) allResults"

definition full_text_point :: "string \<Rightarrow> (string \<times> hit) list \<Rightarrow> payload \<Rightarrow> (string \<times> hit) list" where
  "full_text_point variant allResults p =
     (let textScore = calculateTextScore variant p;
          textScore' = (if includes_str (toLowerCase (payload_text p)) (toLowerCase variant)
                        then js_add textScore (fl (2 / 10)) else textScore)
      in set_if_better (result_key p) (make_hit textScore' variant full_text p) allResults)"

text \<open>The first loop of \<open>search\<close>: one embedding and one similarity query per variant.\<close>

fun semantic_leg :: "'w services \<Rightarrow> nat \<Rightarrow> string list \<Rightarrow> (string \<times> hit) list \<Rightarrow> 'w state
    \<Rightarrow> (error + (string \<times> hit) list) \<times> 'w state" where
  "semantic_leg svc limit [] allResults st = (Inr allResults, st)"
| "semantic_leg svc limit (variant # rest) allResults st =
     (case generateEmbedding svc variant st of
        (Inl e, st1) \<Rightarrow> (Inl e, st1)
      | (Inr queryVector, st1) \<Rightarrow>
          (case store_search svc queryVector (limit * 2) st1 of
             (Inl e, st2) \<Rightarrow> (Inl e, st2)
           | (Inr searchResult, st2) \<Rightarrow>
               semantic_leg svc limit rest
                 (foldl (semantic_point variant) allResults searchResult) st2))"

text \<open>
  \<open>addFullTextResults\<close>: the \<open>try\<close> encloses the whole loop, so the first rejected scroll
  ends it; the error is printed and not thrown, and what was merged so far stays.
\<close>

fun addFullTextResults :: "'w services \<Rightarrow> string list \<Rightarrow> (string \<times> hit) list \<Rightarrow> nat \<Rightarrow> 'w state
    \<Rightarrow> (string \<times> hit) list \<times> 'w state" where
  "addFullTextResults svc [] allResults limit st = (allResults, st)"
| "addFullTextResults svc (variant # rest) allResults limit st =
     (case store_scroll svc variant (limit * 2) st of
        (Inl e, st1) \<Rightarrow> (allResults, st1)
      | (Inr None, st1) \<Rightarrow> addFullTextResults svc rest allResults limit st1
      | (Inr (Some pts), st1) \<Rightarrow>
          addFullTextResults svc rest (foldl (full_text_point variant) allResults pts) limit st1)"

text \<open>
  \<open>values().sort((a, b) => b.score - a.score)\<close>: the sort is stable and puts \<open>a\<close> before
  \<open>b\<close> when the score of \<open>a\<close> is the greater one.
\<close>

definition sort_by_score :: "hit list \<Rightarrow> hit list" where
  "sort_by_score hs = sort_key (\<lambda>h. - score h) hs"

definition search :: "'w services \<Rightarrow> nat \<Rightarrow> string \<Rightarrow> nat \<Rightarrow> 'w state \<Rightarrow> (error + hit list) \<times> 'w state" where
  "search svc year query limit st =
     (let queries = expandQuery year query
      in case semantic_leg svc limit queries [] st of
           (Inl e, st1) \<Rightarrow> (Inl e, st1)
         | (Inr allResults, st1) \<Rightarrow>
             (case addFullTextResults svc queries allResults limit st1 of
                (allResults', st2) \<Rightarrow>
                  (Inr (take limit (sort_by_score (map snd allResults'))), st2)))"

section \<open>The merge as the specification describes it\<close>

text \<open>
  The hit that the specification builds from a point,
  \<open>{score, matched_query: variant, match_type, ...payload}\<close>: the payload as it is, with
  the score, the variant and the leg beside it.
\<close>

definition spec_hit :: "rat \<Rightarrow> string \<Rightarrow> searchType \<Rightarrow> payload \<Rightarrow> hit" where
  "spec_hit s q t p = payload.extend p (hit.fields s q t)"

text \<open>
  The candidates of a search, read off the requests it has sent, in the order of the
  answers: every point of an accepted similarity query is a semantic candidate for the
  variant of the embedding request before it, with the score the store gave; every
  point of an accepted scroll is a lexical candidate for the variant of the scroll, with
  the heuristic score and the 0.2 for a text that contains the variant.
\<close>

fun spec_candidates_from :: "string \<Rightarrow> call list \<Rightarrow> hit list" where
  "spec_candidates_from v [] = []"
| "spec_candidates_from v (EmbedCall t r # rest) = spec_candidates_from t rest"
| "spec_candidates_from v (SearchCall vec n (Inr pts) # rest) =
     map (\<lambda>pt. spec_hit (sp_score pt) v semantic (sp_payload pt)) pts @ spec_candidates_from v rest"
| "spec_candidates_from v (SearchCall vec n (Inl e) # rest) = spec_candidates_from v rest"
| "spec_candidates_from v (ScrollCall q n (Inr (Some pts)) # rest) =
     map (\<lambda>p. spec_hit
                 (if includes_str (toLowerCase (payload_text p)) (toLowerCase q)
                  then js_add (calculateTextScore q p) (fl (2 / 10)) else calculateTextScore q p)
                 q full_text p) pts
     @ spec_candidates_from v rest"
| "spec_candidates_from v (ScrollCall q n (Inr None) # rest) = spec_candidates_from v rest"
| "spec_candidates_from v (ScrollCall q n (Inl e) # rest) = spec_candidates_from v rest"
| "spec_candidates_from v (UpsertCall ps r # rest) = spec_candidates_from v rest"

definition spec_candidates :: "call list \<Rightarrow> hit list" where
  "spec_candidates cs = spec_candidates_from [] cs"

text \<open>
  \<open>first_best cs h\<close>: \<open>h\<close> is one of the candidates \<open>cs\<close>; no candidate for the same
  \<open>(file_path, chunk_index)\<close> before it has a score as great as its own, and none after
  it has a greater one.
\<close>

definition same_chunk :: "hit \<Rightarrow> hit \<Rightarrow> bool" where
  "same_chunk a b \<longleftrightarrow> file_path a = file_path b \<and> chunk_index a = chunk_index b"

definition first_best :: "hit list \<Rightarrow> hit \<Rightarrow> bool" where
  "first_best cs h \<longleftrightarrow>
     (\<exists>pre post. cs = pre @ h # post
        \<and> (\<forall>c\<in>set pre. same_chunk c h \<longrightarrow> score c < score h)
        \<and> (\<forall>c\<in>set post. same_chunk c h \<longrightarrow> score c \<le> score h))"

text \<open>One candidate put through the test of both legs, under its own key.\<close>

definition merge :: "(string \<times> hit) list \<Rightarrow> hit \<Rightarrow> (string \<times> hit) list" where
  "merge acc c = set_if_better (result_key c) c acc"

section \<open>The tool layer in front of search\<close>

text \<open>
  \<open>handleSearchNotes(args)\<close> of the server. \<open>args\<close> is the \<open>arguments\<close> of the request,
  \<open>None\<close> when the request has none; then the destructuring
  \<open>const { query, limit = 10 } = args\<close> throws a \<open>TypeError\<close>. Otherwise \<open>query\<close> may be
  absent and \<open>limit\<close> is 10 when absent. The answer is the object that the source
  passes to \<open>JSON.stringify\<close>.
\<close>

record search_args =
  arg_query :: "string option"
  arg_limit :: "nat option"

record result_row =
  row_file_path :: string
  row_title :: "string option"
  row_score :: rat
  row_search_type :: searchType
  row_search_query_used :: string
  row_text_preview :: string
  row_tags :: "string list"
  row_chunk_index :: nat

record search_response =
  resp_query :: string
  resp_results :: "result_row list"
  resp_total_results :: nat

definition result_row_of :: "hit \<Rightarrow> result_row" where
  "result_row_of r =
     \<lparr>row_file_path = file_path r, row_title = title r, row_score = score r,
      row_search_type = searchType r, row_search_query_used = searchQuery r,
      row_text_preview = take 200 (payload_text r) @ ''...'', row_tags = tags r,
      row_chunk_index = chunk_index r\<rparr>"

definition handleSearchNotes :: "'w services \<Rightarrow> nat \<Rightarrow> search_args option \<Rightarrow> 'w state
    \<Rightarrow> (error + search_response) \<times> 'w state" where
  "handleSearchNotes svc year args st =
     (case args of
        None \<Rightarrow>
          (Inl (TypeError ''Cannot destructure property 'query' of 'args' as it is undefined.''), st)
      | Some a \<Rightarrow>
          (let limit = (case arg_limit a of Some l \<Rightarrow> l | None \<Rightarrow> 10)
           in case arg_query a of
                None \<Rightarrow> (Inl (McpError InvalidParams ''Query parameter is required''), st)
              | Some query \<Rightarrow>
                  if query = [] then
                    (Inl (McpError InvalidParams ''Query parameter is required''), st)
                  else
                    (case search svc year query limit st of
                       (Inl e, st') \<Rightarrow>
                         (Inl (McpError InternalError (''Search failed: '' @ message e)), st')
                     | (Inr results, st') \<Rightarrow>
                         (Inr \<lparr>resp_query = query, resp_results = map result_row_of results,
                               resp_total_results = length results\<rparr>, st'))))"

section \<open>Fixtures for the concrete runs\<close>

text \<open>
  Services over a world without state: each request is answered by a fixed function of
  its argument, and every upsert is accepted.
\<close>

definition fixed_services :: "(string \<Rightarrow> error + vector) \<Rightarrow> (vector \<Rightarrow> error + scored_point list)
    \<Rightarrow> (string \<Rightarrow> error + payload list option) \<Rightarrow> unit services" where
  "fixed_services e s f =
     \<lparr>embeddings = (\<lambda>t w. (e t, w)), qdrant_search = (\<lambda>v n w. (s v, w)),
      qdrant_scroll = (\<lambda>q n w. (f q, w)), qdrant_upsert = (\<lambda>ps w. (Inr (), w))\<rparr>"

definition note_payload :: "string \<Rightarrow> nat \<Rightarrow> string \<Rightarrow> payload" where
  "note_payload fp ci txt =
     \<lparr>file_path = fp, chunk_index = ci, payload_text = txt, title = None, tags = [],
      payload_frontmatter = None, last_modified = 0\<rparr>"

definition st0 :: "unit state" where
  "st0 = \<lparr>calls = [], world = ()\<rparr>"

text \<open>
  The variant \<open>zzz\<close> finds the chunk with score 0.8, every other variant finds it with
  0.6; the scroll is rejected.
\<close>

definition svc_two_scores :: "unit services" where
  "svc_two_scores =
     fixed_services
       (\<lambda>t. Inr (if t = ''zzz'' then [1] else [0]))
       (\<lambda>v. Inr [\<lparr>sp_score = (if v = [1] then 8 / 10 else 6 / 10),
                    sp_payload = note_payload ''a.md'' 0 ''x''\<rparr>])
       (\<lambda>q. Inl (Error ''scroll failed''))"

text \<open>Every variant finds the same three chunks; the scroll finds nothing.\<close>

definition svc_three_hits :: "unit services" where
  "svc_three_hits =
     fixed_services
       (\<lambda>t. Inr [])
       (\<lambda>v. Inr [\<lparr>sp_score = 6 / 10, sp_payload = note_payload ''a.md'' 0 ''x''\<rparr>,
                  \<lparr>sp_score = 8 / 10, sp_payload = note_payload ''b.md'' 0 ''y''\<rparr>,
                  \<lparr>sp_score = 7 / 10, sp_payload = note_payload ''a.md'' 1 ''w''\<rparr>])
       (\<lambda>q. Inr (Some []))"

text \<open>The similarity query finds nothing; the scroll returns one chunk whose text is \<open>abc\<close>.\<close>

definition svc_lexical_hit :: "unit services" where
  "svc_lexical_hit =
     fixed_services (\<lambda>t. Inr []) (\<lambda>v. Inr [])
       (\<lambda>q. Inr (Some [note_payload ''n.md'' 0 ''abc'']))"

text \<open>The embedding service answers every request with an error.\<close>

definition svc_embedding_down :: "unit services" where
  "svc_embedding_down =
     fixed_services (\<lambda>t. Inl (Error ''Ollama API error: 503 Service Unavailable''))
       (\<lambda>v. Inr []) (\<lambda>q. Inr None)"

text \<open>
  Every variant finds the same three chunks, with scores 0.6, 0.8 and 0.7; the scroll is
  rejected.
\<close>

definition svc_three_hits_no_scroll :: "unit services" where
  "svc_three_hits_no_scroll =
     fixed_services
       (\<lambda>t. Inr [])
       (\<lambda>v. Inr [\<lparr>sp_score = 6 / 10, sp_payload = note_payload ''a.md'' 0 ''x''\<rparr>,
                  \<lparr>sp_score = 8 / 10, sp_payload = note_payload ''b.md'' 0 ''y''\<rparr>,
                  \<lparr>sp_score = 7 / 10, sp_payload = note_payload ''a.md'' 1 ''w''\<rparr>])
       (\<lambda>q. Inl (Error ''scroll failed''))"

text \<open>
  The similarity query finds the chunk \<open>n.md\<close>, 0 with score 0.6, and the scroll returns
  the same chunk, whose text is \<open>abc\<close>.
\<close>

definition svc_both_legs :: "unit services" where
  "svc_both_legs =
     fixed_services (\<lambda>t. Inr [])
       (\<lambda>v. Inr [\<lparr>sp_score = 6 / 10, sp_payload = note_payload ''n.md'' 0 ''abc''\<rparr>])
       (\<lambda>q. Inr (Some [note_payload ''n.md'' 0 ''abc'']))"

text \<open>The embedding service answers; the store rejects every similarity query.\<close>

definition svc_store_down :: "unit services" where
  "svc_store_down =
     fixed_services (\<lambda>t. Inr [])
       (\<lambda>v. Inl (Error ''Service Unavailable'')) (\<lambda>q. Inr None)"

text \<open>
  The hit for the chunk \<open>note_payload fp ci txt\<close> with score \<open>s\<close>, found for the variant
  \<open>q\<close> by the leg \<open>t\<close>, field by field.
\<close>

definition note_hit :: "string \<Rightarrow> nat \<Rightarrow> string \<Rightarrow> rat \<Rightarrow> string \<Rightarrow> searchType \<Rightarrow> hit" where
  "note_hit fp ci txt s q t =
     \<lparr>file_path = fp, chunk_index = ci, payload_text = txt, title = None, tags = [],
      payload_frontmatter = None, last_modified = 0, score = s, searchQuery = q, searchType = t\<rparr>"

text \<open>A document with the given body, for the concrete runs below.\<close>

definition doc_of :: "string \<Rightarrow> document" where
  "doc_of s = \<lparr>doc_id = ''n.md'', path = ''n.md'', content = s, frontmatter = None, lastModified = 0\<rparr>"

text \<open>
  Two paragraphs of 600 units each: the second does not fit beside the first, so the
  document has two chunks.
\<close>

definition two_chunk_doc :: document where
  "two_chunk_doc = doc_of (replicate 600 (CHR ''a'') @ [LF, LF] @ replicate 600 (CHR ''b''))"

text \<open>The embedding service rejects every text that contains the letter \<open>b\<close>.\<close>

definition svc_embedding_rejects_b :: "unit services" where
  "svc_embedding_rejects_b =
     fixed_services
       (\<lambda>t. if CHR ''b'' \<in> set t then Inl (Error ''Ollama API error: 500 Internal Server Error'')
            else Inr [1])
       (\<lambda>v. Inr []) (\<lambda>q. Inr None)"

text \<open>The requests of a trace that are upserts.\<close>

fun isUpsert :: "call \<Rightarrow> bool" where
  "isUpsert (UpsertCall ps r) = True"
| "isUpsert _ = False"

text \<open>
  The invariant of \<open>allResults\<close> during a search: no key occurs twice, and every entry
  is stored under the key of its own hit.
\<close>

definition acc_ok :: "(string \<times> hit) list \<Rightarrow> bool" where
  "acc_ok acc \<longleftrightarrow> distinct (map fst acc) \<and> (\<forall>(k, h)\<in>set acc. k = result_key h)"

text \<open>
  The buffers of the chunker, in the order of their flushing. \<open>seeded P bufs i\<close>: buffer
  \<open>i\<close> has at most 1002 units, or it is one paragraph of \<open>P\<close> alone (only the
  first), or one paragraph behind the last \<open>overlap\<close> units of the buffer before it.
  \<open>open_ok P bufs cur\<close> says the same of the buffer still open, which is empty only
  before the first flush.
\<close>

definition seeded :: "string list \<Rightarrow> string list \<Rightarrow> nat \<Rightarrow> bool" where
  "seeded P bufs i \<longleftrightarrow>
     length (bufs ! i) \<le> 1002
     \<or> (i = 0 \<and> bufs ! i \<in> set P)
     \<or> (0 < i \<and> (\<exists>p\<in>set P. bufs ! i = slice_last overlap (bufs ! (i - 1)) @ p))"

definition open_ok :: "string list \<Rightarrow> string list \<Rightarrow> string \<Rightarrow> bool" where
  "open_ok P bufs cur \<longleftrightarrow>
     (bufs \<noteq> [] \<longrightarrow> cur \<noteq> []) \<and>
     (length cur \<le> 1002
      \<or> (bufs = [] \<and> cur \<in> set P)
      \<or> (bufs \<noteq> [] \<and> (\<exists>p\<in>set P. cur = slice_last overlap (last bufs) @ p)))"

section \<open>Properties of the chunker\<close>

lemma trim_length: "length (trim s) \<le> length s"
  unfolding trim_def
  by (metis length_dropWhile_le length_rev order_trans)

lemma trim_empty_iff: "trim s = [] \<longleftrightarrow> (\<forall>c\<in>set s. isWhiteSpace c)"
proof -
  have "dropWhile isWhiteSpace s \<noteq> [] \<Longrightarrow> \<not> isWhiteSpace (hd (dropWhile isWhiteSpace s))"
    by (rule hd_dropWhile)
  then have "(\<forall>x\<in>set (dropWhile isWhiteSpace s). isWhiteSpace x) \<longleftrightarrow> dropWhile isWhiteSpace s = []"
    by (metis empty_iff empty_set hd_in_set)
  moreover have "dropWhile isWhiteSpace s = [] \<longleftrightarrow> (\<forall>c\<in>set s. isWhiteSpace c)"
    by (rule dropWhile_eq_Nil_conv)
  moreover have "trim s = [] \<longleftrightarrow> (\<forall>x\<in>set (dropWhile isWhiteSpace s). isWhiteSpace x)"
    unfolding trim_def by (simp add: dropWhile_eq_Nil_conv)
  ultimately show ?thesis by blast
qed

lemma trim_id:
  assumes "s \<noteq> []" "\<not> isWhiteSpace (hd s)" "\<not> isWhiteSpace (last s)"
  shows "trim s = s"
proof -
  have a: "dropWhile isWhiteSpace s = s" using assms(1,2) by (cases s) auto
  have "rev s \<noteq> []" "\<not> isWhiteSpace (hd (rev s))" using assms by (auto simp: hd_rev)
  then have b: "dropWhile isWhiteSpace (rev s) = rev s" by (cases "rev s") auto
  show ?thesis unfolding trim_def by (simp add: a b)
qed

lemma split_loop_no_LF: "LF \<notin> set s \<Longrightarrow> split_loop piece (s @ t) = split_loop (piece @ s) t"
  by (induction s arbitrary: piece) auto

lemma ws_star_nl_take: "ws_star_nl s = Some n \<Longrightarrow> (\<forall>c\<in>set (take n s). isWhiteSpace c)"
proof (induction s arbitrary: n)
  case Nil
  then show ?case by simp
next
  case (Cons c cs)
  have lf: "isWhiteSpace LF" by (simp add: isWhiteSpace_def LF_def)
  show ?case
  proof (cases "ws_star_nl cs")
    case None
    with Cons.prems lf have "n = 1" "c = LF" by (auto split: if_splits)
    with lf show ?thesis by simp
  next
    case (Some m)
    show ?thesis
    proof (cases "isWhiteSpace c")
      case True
      with Some Cons.prems have "n = Suc m" by simp
      with Cons.IH[OF Some] True show ?thesis by simp
    next
      case False
      with Cons.prems lf have "n = 1" "c = LF" by (auto split: if_splits)
      with lf show ?thesis by simp
    qed
  qed
qed

lemma split_loop_chars:
  "set piece \<union> set s \<subseteq> (\<Union>p\<in>set (split_loop piece s). set p) \<union> Collect isWhiteSpace"
proof (induction piece s rule: split_loop.induct)
  case (1 piece)
  then show ?case by simp
next
  case (2 piece c cs)
  show ?case
  proof (cases "c = LF \<and> ws_star_nl cs \<noteq> None")
    case True
    then obtain n where n: "ws_star_nl cs = Some n" by auto
    have lf: "isWhiteSpace LF" by (simp add: isWhiteSpace_def LF_def)
    have "set cs = set (take n cs) \<union> set (drop n cs)"
      by (metis append_take_drop_id set_append)
    moreover have "set (take n cs) \<subseteq> Collect isWhiteSpace"
      using ws_star_nl_take[OF n] by auto
    moreover have "set (drop n cs) \<subseteq> (\<Union>p\<in>set (split_loop [] (drop n cs)). set p) \<union> Collect isWhiteSpace"
      using "2.IH"(2)[OF _ n] True by simp
    ultimately show ?thesis using True n lf by auto
  next
    case False
    then have eq: "split_loop piece (c # cs) = split_loop (piece @ [c]) cs"
      by (auto split: option.splits)
    have "set (piece @ [c]) \<union> set cs \<subseteq> (\<Union>p\<in>set (split_loop (piece @ [c]) cs). set p) \<union> Collect isWhiteSpace"
      using False "2.IH"(1,3) by (cases "c = LF") auto
    then show ?thesis unfolding eq by auto
  qed
qed


lemma slice_last_length: "length (slice_last n s) \<le> n"
  by (simp add: slice_last_def)

lemma chunk_loop_noflush:
  "chunk_loop ps chunks cur = ([], cur') \<Longrightarrow> chunks = [] \<and> set cur \<union> (\<Union>p\<in>set ps. set p) \<subseteq> set cur'"
proof (induction ps arbitrary: chunks cur)
  case Nil
  then show ?case by simp
next
  case (Cons p ps)
  show ?case
  proof (cases "length cur + length p > maxChunkSize \<and> length cur > 0")
    case True
    then have "chunk_loop ps (chunks @ [\<lparr>chunk_text = trim cur, chunk_start = length chunks * (maxChunkSize - overlap)\<rparr>]) (slice_last overlap cur @ p) = ([], cur')"
      using Cons.prems by simp
    from Cons.IH[OF this] show ?thesis by simp
  next
    case False
    have "chunk_loop ps chunks (cur @ (if cur \<noteq> [] then [LF, LF] else []) @ p) = ([], cur')"
      using Cons.prems unfolding chunk_loop.simps if_not_P[OF False] .
    from Cons.IH[OF this] show ?thesis by auto
  qed
qed

lemma seeded_snoc:
  assumes all: "\<forall>i<length bufs. seeded P bufs i" and cur: "open_ok P bufs cur"
  shows "\<forall>i<length (bufs @ [cur]). seeded P (bufs @ [cur]) i"
proof (intro allI impI)
  fix i assume "i < length (bufs @ [cur])"
  then consider "i < length bufs" | "i = length bufs" by fastforce
  then show "seeded P (bufs @ [cur]) i"
  proof cases
    case 1
    then have "i - 1 < length bufs" by simp
    with 1 have a: "(bufs @ [cur]) ! i = bufs ! i" and b: "(bufs @ [cur]) ! (i - 1) = bufs ! (i - 1)"
      by (simp_all add: nth_append del: One_nat_def)
    from all 1 have "seeded P bufs i" by blast
    then show ?thesis unfolding seeded_def a b .
  next
    case 2
    then have a: "(bufs @ [cur]) ! i = cur" by simp
    show ?thesis
    proof (cases "bufs = []")
      case True
      with cur 2 show ?thesis by (auto simp: seeded_def open_ok_def)
    next
      case False
      with 2 have b: "(bufs @ [cur]) ! (i - 1) = last bufs" and pos: "0 < i"
        by (simp_all add: nth_append last_conv_nth)
      from cur False have "length cur \<le> 1002 \<or> (\<exists>p\<in>set P. cur = slice_last overlap (last bufs) @ p)"
        by (auto simp: open_ok_def)
      then show ?thesis unfolding seeded_def a b using pos by blast
    qed
  qed
qed

lemma slice_last_nonempty: "s \<noteq> [] \<Longrightarrow> slice_last overlap s \<noteq> []"
  by (cases s) (auto simp: slice_last_def overlap_def)

lemma chunk_loop_buffers:
  assumes "chunk_loop ps chunks cur = (chunks', cur')"
    and "set ps \<subseteq> set P"
    and "map chunk_text chunks = map trim bufs"
    and "\<forall>i<length bufs. seeded P bufs i"
    and "open_ok P bufs cur"
  shows "\<exists>bufs'. map chunk_text chunks' = map trim bufs' \<and>
           (\<forall>i<length bufs'. seeded P bufs' i) \<and> open_ok P bufs' cur'"
  using assms
proof (induction ps arbitrary: chunks cur bufs)
  case Nil
  then show ?case by auto
next
  case (Cons p ps)
  have pin: "p \<in> set P" and sub: "set ps \<subseteq> set P" using Cons.prems(2) by auto
  show ?case
  proof (cases "length cur + length p > maxChunkSize \<and> length cur > 0")
    case True
    let ?c = "\<lparr>chunk_text = trim cur, chunk_start = length chunks * (maxChunkSize - overlap)\<rparr>"
    have run: "chunk_loop ps (chunks @ [?c]) (slice_last overlap cur @ p) = (chunks', cur')"
      using Cons.prems(1) True by simp
    have m: "map chunk_text (chunks @ [?c]) = map trim (bufs @ [cur])"
      using Cons.prems(3) by simp
    have s: "\<forall>i<length (bufs @ [cur]). seeded P (bufs @ [cur]) i"
      by (rule seeded_snoc[OF Cons.prems(4,5)])
    have "cur \<noteq> []" using True by auto
    then have o: "open_ok P (bufs @ [cur]) (slice_last overlap cur @ p)"
      using pin slice_last_nonempty[of cur] by (auto simp: open_ok_def)
    show ?thesis by (rule Cons.IH[OF run sub m s o])
  next
    case False
    let ?cur = "cur @ (if cur \<noteq> [] then [LF, LF] else []) @ p"
    have run: "chunk_loop ps chunks ?cur = (chunks', cur')"
      using Cons.prems(1) unfolding chunk_loop.simps if_not_P[OF False] .
    have o: "open_ok P bufs ?cur"
    proof (cases "cur = []")
      case True
      with Cons.prems(5) have "bufs = []" by (auto simp: open_ok_def)
      with True pin show ?thesis by (simp add: open_ok_def)
    next
      case False
      with \<open>\<not> (length cur + length p > maxChunkSize \<and> length cur > 0)\<close>
      have "length cur + length p \<le> 1000" by (simp add: maxChunkSize_def)
      with False show ?thesis by (simp add: open_ok_def)
    qed
    show ?thesis by (rule Cons.IH[OF run sub Cons.prems(3,4) o])
  qed
qed

text \<open>
  C3 (amended). Every chunk is the trimmed text of a buffer. The flush test compares
  \<open>currentChunk.length + paragraph.length\<close> with \<open>maxChunkSize\<close>, so the two line feeds
  that join paragraphs are not counted: a buffer, and the chunk trimmed from it, has at
  most 1002 code units, with two exceptions that are never split. The buffer of the first
  chunk may be one paragraph of any length, alone. The buffer of a later chunk may be one
  paragraph of any length behind the last \<open>overlap\<close> code units of the buffer of the
  chunk before it.
\<close>

theorem chunk_length_bound:
  "\<exists>bufs. map chunk_text (chunkDocument d) = map trim bufs \<and>
     (\<forall>i<length bufs.
        (length (bufs ! i) \<le> 1002 \<and> length (trim (bufs ! i)) \<le> 1002)
        \<or> (i = 0 \<and> bufs ! i \<in> set (split_paragraphs (content d)))
        \<or> (0 < i \<and> (\<exists>p\<in>set (split_paragraphs (content d)).
                        bufs ! i = slice_last overlap (bufs ! (i - 1)) @ p)))"
proof -
  let ?P = "split_paragraphs (content d)"
  have goal: "\<exists>bufs. map chunk_text (chunkDocument d) = map trim bufs \<and>
     (\<forall>i<length bufs. seeded ?P bufs i)"
  proof -
    obtain chunks cur where run: "chunk_loop ?P [] [] = (chunks, cur)"
      by (cases "chunk_loop ?P [] []")
    have "\<exists>bufs. map chunk_text chunks = map trim bufs \<and>
           (\<forall>i<length bufs. seeded ?P bufs i) \<and> open_ok ?P bufs cur"
      by (rule chunk_loop_buffers[OF run, of ?P "[]"]) (simp_all add: open_ok_def)
    then obtain bufs where m: "map chunk_text chunks = map trim bufs"
      and s: "\<forall>i<length bufs. seeded ?P bufs i" and o: "open_ok ?P bufs cur" by blast
    show ?thesis
    proof (cases "trim cur \<noteq> []")
      case True
      then have "chunkDocument d =
          chunks @ [\<lparr>chunk_text = trim cur, chunk_start = length chunks * (maxChunkSize - overlap)\<rparr>]"
        by (simp add: chunkDocument_def run Let_def)
      then have "map chunk_text (chunkDocument d) = map trim (bufs @ [cur])"
        using m by simp
      moreover have "\<forall>i<length (bufs @ [cur]). seeded ?P (bufs @ [cur]) i"
        by (rule seeded_snoc[OF s o])
      ultimately show ?thesis by blast
    next
      case False
      show ?thesis
      proof (cases "chunks = []")
        case False
        with \<open>\<not> trim cur \<noteq> []\<close> have "chunkDocument d = chunks"
          by (simp add: chunkDocument_def run Let_def)
        with m s show ?thesis by auto
      next
        case True
        with \<open>\<not> trim cur \<noteq> []\<close>
        have cd: "chunkDocument d = [\<lparr>chunk_text = trim (content d), chunk_start = 0\<rparr>]"
          by (simp add: chunkDocument_def run Let_def)
        have "(\<Union>p\<in>set ?P. set p) \<subseteq> set cur"
          using chunk_loop_noflush[of ?P "[]" "[]" cur] run True by simp
        moreover have "\<forall>x\<in>set cur. isWhiteSpace x"
          using \<open>\<not> trim cur \<noteq> []\<close> by (simp add: trim_empty_iff)
        moreover have "set (content d) \<subseteq> (\<Union>p\<in>set ?P. set p) \<union> Collect isWhiteSpace"
          using split_loop_chars[of "[]" "content d"] by (simp add: split_paragraphs_def)
        ultimately have "\<forall>x\<in>set (content d). isWhiteSpace x" by blast
        then have "trim (content d) = []" by (simp add: trim_empty_iff)
        with cd have "map chunk_text (chunkDocument d) = map trim [[]]"
          by (simp add: trim_def)
        moreover have "\<forall>i<length [[]::string]. seeded ?P [[]] i" by (simp add: seeded_def)
        ultimately show ?thesis by blast
      qed
    qed
  qed
  then obtain bufs where m: "map chunk_text (chunkDocument d) = map trim bufs"
    and s: "\<forall>i<length bufs. seeded ?P bufs i" by blast
  have "\<forall>i<length bufs.
        (length (bufs ! i) \<le> 1002 \<and> length (trim (bufs ! i)) \<le> 1002)
        \<or> (i = 0 \<and> bufs ! i \<in> set ?P)
        \<or> (0 < i \<and> (\<exists>p\<in>set ?P. bufs ! i = slice_last overlap (bufs ! (i - 1)) @ p))"
  proof (intro allI impI)
    fix i assume "i < length bufs"
    with s have "seeded ?P bufs i" by blast
    then show "(length (bufs ! i) \<le> 1002 \<and> length (trim (bufs ! i)) \<le> 1002)
        \<or> (i = 0 \<and> bufs ! i \<in> set ?P)
        \<or> (0 < i \<and> (\<exists>p\<in>set ?P. bufs ! i = slice_last overlap (bufs ! (i - 1)) @ p))"
      unfolding seeded_def using trim_length[of "bufs ! i"] by (meson order_trans)
  qed
  with m show ?thesis by blast
qed

text \<open>
  C3 as stated fails: 999 letters, a blank line and one more letter are two paragraphs of
  999 and 1 units; 999 + 1 is not above 1000, so they are joined into a single chunk of
  1002 units, which is longer than 1000 and is not one of the paragraphs.
\<close>

theorem chunk_length_counterexample:
  "map chunk_text (chunkDocument (doc_of (replicate 999 (CHR ''a'') @ [LF, LF, CHR ''b'']))) =
     [replicate 999 (CHR ''a'') @ [LF, LF, CHR ''b'']]
   \<and> length (replicate 999 (CHR ''a'') @ [LF, LF, CHR ''b'']) = 1002
   \<and> split_paragraphs (replicate 999 (CHR ''a'') @ [LF, LF, CHR ''b'']) = [replicate 999 (CHR ''a''), ''b'']"
proof -
  let ?a = "replicate 999 (CHR ''a'')"
  have nolf: "LF \<notin> set ?a" by (simp add: LF_def)
  have sp: "split_paragraphs (?a @ [LF, LF, CHR ''b'']) = [?a, ''b'']"
    unfolding split_paragraphs_def split_loop_no_LF[OF nolf]
    by (simp add: isWhiteSpace_def LF_def)
  have tr: "trim (?a @ [LF, LF, CHR ''b'']) = ?a @ [LF, LF, CHR ''b'']"
    by (rule trim_id) (simp_all add: isWhiteSpace_def)
  have lp: "chunk_loop [?a, ''b''] [] [] = ([], ?a @ [LF, LF, CHR ''b''])"
    by (simp add: maxChunkSize_def)
  show ?thesis
    by (simp add: chunkDocument_def doc_of_def sp lp tr Let_def del: chunk_loop.simps)
qed


lemma ws_star_nl_nonws:
  assumes "s \<noteq> []" "\<not> isWhiteSpace (hd s)"
  shows "ws_star_nl s = None"
proof -
  have "isWhiteSpace LF" by (simp add: isWhiteSpace_def LF_def)
  with assms show ?thesis by (cases s) auto
qed

lemma two_paragraph_chunks:
  assumes "400 < m"
  shows "chunkDocument (doc_of (replicate 600 (CHR ''a'') @ [LF, LF] @ replicate m (CHR ''b''))) =
     [\<lparr>chunk_text = replicate 600 (CHR ''a''), chunk_start = 0\<rparr>,
      \<lparr>chunk_text = replicate 100 (CHR ''a'') @ replicate m (CHR ''b''), chunk_start = 900\<rparr>]"
    and "split_paragraphs (replicate 600 (CHR ''a'') @ [LF, LF] @ replicate m (CHR ''b'')) =
     [replicate 600 (CHR ''a''), replicate m (CHR ''b'')]"
proof -
  let ?a = "replicate 600 (CHR ''a'')" and ?b = "replicate m (CHR ''b'')"
  have mpos: "0 < m" "m \<noteq> 0" using assms by simp_all
  have nolf: "LF \<notin> set ?a" "LF \<notin> set ?b" by (simp_all add: LF_def)
  have "split_loop [] (?a @ [LF, LF] @ ?b) = split_loop ?a ([LF, LF] @ ?b)"
    using split_loop_no_LF[OF nolf(1), of "[]"] by simp
  also have "\<dots> = ?a # split_loop [] ?b"
  proof -
    have "ws_star_nl ?b = None"
      by (rule ws_star_nl_nonws) (simp_all add: isWhiteSpace_def mpos)
    then have "ws_star_nl (LF # ?b) = Some 1"
      by (simp add: isWhiteSpace_def LF_def)
    then show ?thesis by simp
  qed
  also have "split_loop [] ?b = [?b]"
    using split_loop_no_LF[OF nolf(2), of "[]" "[]"] by simp
  finally have sp: "split_paragraphs (?a @ LF # LF # ?b) = [?a, ?b]"
    by (simp add: split_paragraphs_def)
  then show "split_paragraphs (?a @ [LF, LF] @ ?b) = [?a, ?b]" by simp
  have sl: "slice_last overlap ?a = replicate 100 (CHR ''a'')"
    by (simp add: slice_last_def overlap_def)
  have t1: "trim ?a = ?a"
    by (rule trim_id) (simp_all add: isWhiteSpace_def)
  have t2: "trim (replicate 100 (CHR ''a'') @ ?b) = replicate 100 (CHR ''a'') @ ?b"
    by (rule trim_id) (simp_all add: isWhiteSpace_def mpos)
  have lp: "chunk_loop [?a, ?b] [] [] =
      ([\<lparr>chunk_text = ?a, chunk_start = 0\<rparr>], replicate 100 (CHR ''a'') @ ?b)"
    using assms by (simp add: maxChunkSize_def sl t1)
  show "chunkDocument (doc_of (?a @ [LF, LF] @ ?b)) =
     [\<lparr>chunk_text = ?a, chunk_start = 0\<rparr>,
      \<lparr>chunk_text = replicate 100 (CHR ''a'') @ ?b, chunk_start = 900\<rparr>]"
    unfolding chunkDocument_def doc_of_def
    using mpos by (simp add: sp lp t2 Let_def maxChunkSize_def overlap_def del: chunk_loop.simps)
qed

text \<open>
  C3, a run of the amended bound: paragraphs of 600 and of 950 units. The first is flushed,
  and the second chunk has 1050 units: the last 100 of the first buffer and the second
  paragraph.
\<close>

theorem chunk_length_bound_witness:
  "map chunk_text
     (chunkDocument (doc_of (replicate 600 (CHR ''a'') @ [LF, LF] @ replicate 950 (CHR ''b''))))
     = [replicate 600 (CHR ''a''), replicate 100 (CHR ''a'') @ replicate 950 (CHR ''b'')]
   \<and> length (replicate 100 (CHR ''a'') @ replicate 950 (CHR ''b'')) = 1050
   \<and> (\<exists>bufs. [replicate 600 (CHR ''a''), replicate 100 (CHR ''a'') @ replicate 950 (CHR ''b'')]
                 = map trim bufs
          \<and> 1002 < length (bufs ! 1)
          \<and> (\<exists>p\<in>set (split_paragraphs
                        (content (doc_of (replicate 600 (CHR ''a'') @ [LF, LF]
                                            @ replicate 950 (CHR ''b''))))).
                 bufs ! 1 = slice_last overlap (bufs ! 0) @ p))"
proof -
  let ?d = "doc_of (replicate 600 (CHR ''a'') @ [LF, LF] @ replicate 950 (CHR ''b''))"
  let ?c1 = "replicate 600 (CHR ''a'')"
  let ?c2 = "replicate 100 (CHR ''a'') @ replicate 950 (CHR ''b'')"
  have cs: "map chunk_text (chunkDocument ?d) = [?c1, ?c2]"
    using two_paragraph_chunks(1)[of 950] by simp
  from chunk_length_bound[of ?d] obtain bufs where
    m: "map chunk_text (chunkDocument ?d) = map trim bufs"
    and a: "\<forall>i<length bufs.
        (length (bufs ! i) \<le> 1002 \<and> length (trim (bufs ! i)) \<le> 1002)
        \<or> (i = 0 \<and> bufs ! i \<in> set (split_paragraphs (content ?d)))
        \<or> (0 < i \<and> (\<exists>p\<in>set (split_paragraphs (content ?d)).
                        bufs ! i = slice_last overlap (bufs ! (i - 1)) @ p))"
    by blast
  from m cs have e: "map trim bufs = [?c1, ?c2]" by simp
  then have len: "length bufs = 2" by (metis length_map length_Cons list.size(3) numeral_2_eq_2)
  from e have "trim (bufs ! 1) = ?c2" by (metis len nth_map nth_Cons_0 nth_Cons_Suc One_nat_def lessI numeral_2_eq_2)
  then have "length (trim (bufs ! 1)) = 1050" by simp
  then have big: "1002 < length (bufs ! 1)" using trim_length[of "bufs ! 1"] by simp
  from a len have "(length (bufs ! 1) \<le> 1002 \<and> length (trim (bufs ! 1)) \<le> 1002)
        \<or> (1 = (0::nat) \<and> bufs ! 1 \<in> set (split_paragraphs (content ?d)))
        \<or> (0 < (1::nat) \<and> (\<exists>p\<in>set (split_paragraphs (content ?d)).
                        bufs ! 1 = slice_last overlap (bufs ! (1 - 1)) @ p))"
    by (metis One_nat_def lessI numeral_2_eq_2)
  with big have "\<exists>p\<in>set (split_paragraphs (content ?d)).
                        bufs ! 1 = slice_last overlap (bufs ! 0) @ p"
    by auto
  with e big cs show ?thesis by (intro conjI) (simp, simp, metis)
qed

section \<open>Properties of the string operations\<close>

lemma set_set_order: "set (set_order seen xs) = set seen \<union> set xs"
  by (induction xs arbitrary: seen) auto

lemma set_new_Set: "set (new_Set xs) = set xs"
  by (simp add: new_Set_def set_set_order)

lemma isDigit_digit_char: "d < 10 \<Longrightarrow> isDigit (digit_char d)"
  by (simp add: isDigit_def digit_char_def Let_def)

lemma decimal_head: "\<exists>d ds. decimal n = d # ds \<and> isDigit d"
proof (induction n rule: decimal.induct)
  case (1 n)
  show ?case
  proof (cases "n < 10")
    case True
    then show ?thesis by (simp add: decimal.simps[of n] isDigit_digit_char)
  next
    case False
    with 1 obtain d ds where "decimal (n div 10) = d # ds" "isDigit d" by auto
    with False show ?thesis by (simp add: decimal.simps[of n])
  qed
qed

lemma not_decimal_prefix: "\<not> isDigit c \<Longrightarrow> c # s \<noteq> decimal n @ t"
  using decimal_head[of n] by auto

lemma decimal_digits: "c \<in> set (decimal n) \<Longrightarrow> isDigit c"
proof (induction n arbitrary: c rule: decimal.induct)
  case (1 n)
  show ?case
  proof (cases "n < 10")
    case True
    with "1.prems" show ?thesis by (simp add: decimal.simps[of n] isDigit_digit_char)
  next
    case False
    with "1.prems" have "c \<in> set (decimal (n div 10)) \<or> c = digit_char (n mod 10)"
      by (auto simp: decimal.simps[of n])
    then show ?thesis
    proof
      assume "c \<in> set (decimal (n div 10))"
      with "1.IH" False show ?thesis by simp
    next
      assume "c = digit_char (n mod 10)"
      then show ?thesis by (simp add: isDigit_digit_char)
    qed
  qed
qed

lemma digit_char_inj: "a < 10 \<Longrightarrow> b < 10 \<Longrightarrow> digit_char a = digit_char b \<Longrightarrow> a = b"
proof -
  assume a: "a < 10" and b: "b < 10" and e: "digit_char a = digit_char b"
  from e have "(of_char (digit_char a) :: nat) = of_char (digit_char b)" by simp
  with a b show ?thesis by (simp add: digit_char_def)
qed

lemma decimal_nonempty: "decimal n \<noteq> []"
  using decimal_head[of n] by auto

lemma decimal_inj: "decimal m = decimal n \<Longrightarrow> m = n"
proof (induction m arbitrary: n rule: decimal.induct)
  case (1 m)
  show ?case
  proof (cases "m < 10")
    case m: True
    show ?thesis
    proof (cases "n < 10")
      case True
      with m "1.prems" show ?thesis
        by (simp add: decimal.simps[of m] decimal.simps[of n] digit_char_inj)
    next
      case False
      with m "1.prems" have "[digit_char m] = decimal (n div 10) @ [digit_char (n mod 10)]"
        by (simp add: decimal.simps[of m] decimal.simps[of n])
      then have "decimal (n div 10) = []" by simp
      with decimal_nonempty show ?thesis by blast
    qed
  next
    case m: False
    show ?thesis
    proof (cases "n < 10")
      case True
      with m "1.prems" have "decimal (m div 10) @ [digit_char (m mod 10)] = [digit_char n]"
        by (simp add: decimal.simps[of m] decimal.simps[of n])
      then have "decimal (m div 10) = []" by simp
      with decimal_nonempty show ?thesis by blast
    next
      case False
      with m "1.prems" have
        "decimal (m div 10) @ [digit_char (m mod 10)] = decimal (n div 10) @ [digit_char (n mod 10)]"
        by (simp add: decimal.simps[of m] decimal.simps[of n])
      then have d: "decimal (m div 10) = decimal (n div 10)"
        and r: "digit_char (m mod 10) = digit_char (n mod 10)" by simp_all
      from "1.IH"[OF m d] have "m div 10 = n div 10" .
      moreover from r have "m mod 10 = n mod 10" by (intro digit_char_inj) simp_all
      ultimately show ?thesis by (metis div_mult_mod_eq)
    qed
  qed
qed

lemma split_at_last:
  assumes "xs @ a # ys = xs' @ a # ys'" "a \<notin> set ys" "a \<notin> set ys'"
  shows "xs = xs' \<and> ys = ys'"
proof -
  have "rev ys @ a # rev xs = rev ys' @ a # rev xs'"
    using arg_cong[OF assms(1), of rev] by simp
  moreover have "takeWhile (\<lambda>x. x \<noteq> a) (rev ys @ a # rev xs) = rev ys"
    using assms(2) by (auto simp: takeWhile_tail)
  moreover have "takeWhile (\<lambda>x. x \<noteq> a) (rev ys' @ a # rev xs') = rev ys'"
    using assms(3) by (auto simp: takeWhile_tail)
  ultimately have "rev ys = rev ys'" by simp
  then have "ys = ys'" by simp
  with assms(1) show ?thesis by simp
qed

section \<open>Properties of the trace of requests\<close>

lemma generateEmbedding_calls:
  "generateEmbedding svc t st = (r, st') \<Longrightarrow> calls st' = calls st @ [EmbedCall t r]"
  by (auto simp: generateEmbedding_def split: prod.splits)

lemma store_search_calls:
  "store_search svc v n st = (r, st') \<Longrightarrow> calls st' = calls st @ [SearchCall v n r]"
  by (auto simp: store_search_def split: prod.splits)

lemma store_scroll_calls:
  "store_scroll svc q n st = (r, st') \<Longrightarrow> calls st' = calls st @ [ScrollCall q n r]"
  by (auto simp: store_scroll_def split: prod.splits)

section \<open>Properties of the search\<close>

lemma make_hit_spec_hit: "make_hit s q t p = spec_hit s q t p"
  by (cases p) (simp add: make_hit_def spec_hit_def payload.defs hit.defs)

lemma spec_hit_fields:
  "score (spec_hit s q t p) = s" "searchQuery (spec_hit s q t p) = q"
  "searchType (spec_hit s q t p) = t" "payload.truncate (spec_hit s q t p) = p"
  "file_path (spec_hit s q t p) = file_path p" "chunk_index (spec_hit s q t p) = chunk_index p"
  by (cases p, simp add: spec_hit_def payload.defs hit.defs)+

lemma result_key_spec_hit: "result_key (spec_hit s q t p) = result_key p"
  by (simp add: result_key_def spec_hit_fields)

lemma semantic_point_merge:
  "semantic_point v acc pt = merge acc (spec_hit (sp_score pt) v semantic (sp_payload pt))"
  by (simp add: semantic_point_def merge_def make_hit_spec_hit result_key_spec_hit)

lemma full_text_point_merge:
  "full_text_point v acc p =
     merge acc (spec_hit (if includes_str (toLowerCase (payload_text p)) (toLowerCase v)
                  then js_add (calculateTextScore v p) (fl (2 / 10)) else calculateTextScore v p)
                 v full_text p)"
  by (simp add: full_text_point_def merge_def make_hit_spec_hit result_key_spec_hit Let_def)

lemma foldl_semantic_merge:
  "foldl (semantic_point v) acc pts =
     foldl merge acc (map (\<lambda>pt. spec_hit (sp_score pt) v semantic (sp_payload pt)) pts)"
  by (induction pts arbitrary: acc) (simp_all add: semantic_point_merge)

lemma foldl_full_text_merge:
  "foldl (full_text_point v) acc pts =
     foldl merge acc (map (\<lambda>p. spec_hit
                 (if includes_str (toLowerCase (payload_text p)) (toLowerCase v)
                  then js_add (calculateTextScore v p) (fl (2 / 10)) else calculateTextScore v p)
                 v full_text p) pts)"
  by (induction pts arbitrary: acc) (simp_all add: full_text_point_merge)

lemma semantic_leg_trace:
  "semantic_leg svc limit qs acc st = (Inr acc', st') \<Longrightarrow>
     \<exists>new cs. calls st' = calls st @ new \<and> acc' = foldl merge acc cs \<and>
        (\<forall>v tail. \<exists>v'. spec_candidates_from v (new @ tail) = cs @ spec_candidates_from v' tail)"
proof (induction qs arbitrary: acc st)
  case Nil
  then have "calls st' = calls st @ [] \<and> acc' = foldl merge acc [] \<and>
        (\<forall>v tail. \<exists>v'. spec_candidates_from v ([] @ tail) = [] @ spec_candidates_from v' tail)"
    by auto
  then show ?case by blast
next
  case (Cons q qs)
  from Cons.prems obtain vec st1 sr st2 where
    ge: "generateEmbedding svc q st = (Inr vec, st1)" and
    ss: "store_search svc vec (limit * 2) st1 = (Inr sr, st2)" and
    rec: "semantic_leg svc limit qs (foldl (semantic_point q) acc sr) st2 = (Inr acc', st')"
    by (auto split: prod.splits sum.splits)
  from Cons.IH[OF rec] obtain new cs where
    c: "calls st' = calls st2 @ new" and
    a: "acc' = foldl merge (foldl (semantic_point q) acc sr) cs" and
    t: "\<forall>v tail. \<exists>v'. spec_candidates_from v (new @ tail) = cs @ spec_candidates_from v' tail"
    by blast
  let ?new = "EmbedCall q (Inr vec) # SearchCall vec (limit * 2) (Inr sr) # new"
  let ?cs = "map (\<lambda>pt. spec_hit (sp_score pt) q semantic (sp_payload pt)) sr @ cs"
  have 1: "calls st' = calls st @ ?new"
    using c generateEmbedding_calls[OF ge] store_search_calls[OF ss] by simp
  have 2: "acc' = foldl merge acc ?cs"
    using a by (simp add: foldl_semantic_merge)
  have 3: "\<forall>v tail. \<exists>v'. spec_candidates_from v (?new @ tail) = ?cs @ spec_candidates_from v' tail"
    using t by simp
  from 1 2 3 show ?case by blast
qed

lemma addFullTextResults_trace:
  "addFullTextResults svc qs acc limit st = (acc', st') \<Longrightarrow>
     \<exists>new cs. calls st' = calls st @ new \<and> acc' = foldl merge acc cs \<and>
        (\<forall>v. spec_candidates_from v new = cs)"
proof (induction qs arbitrary: acc st)
  case Nil
  then have "calls st' = calls st @ [] \<and> acc' = foldl merge acc [] \<and>
        (\<forall>v. spec_candidates_from v [] = [])"
    by auto
  then show ?case by blast
next
  case (Cons q qs)
  obtain r st1 where sc: "store_scroll svc q (limit * 2) st = (r, st1)"
    by (cases "store_scroll svc q (limit * 2) st")
  note c1 = store_scroll_calls[OF sc]
  show ?case
  proof (cases r)
    case (Inl e)
    with sc Cons.prems have "acc' = acc" "st' = st1" by simp_all
    then have "calls st' = calls st @ [ScrollCall q (limit * 2) (Inl e)] \<and> acc' = foldl merge acc [] \<and>
        (\<forall>v. spec_candidates_from v [ScrollCall q (limit * 2) (Inl e)] = [])"
      using c1 Inl by simp
    then show ?thesis by blast
  next
    case (Inr opt)
    show ?thesis
    proof (cases opt)
      case None
      with Inr sc Cons.prems have "addFullTextResults svc qs acc limit st1 = (acc', st')" by simp
      from Cons.IH[OF this] obtain new cs where
        "calls st' = calls st1 @ new" "acc' = foldl merge acc cs" "\<forall>v. spec_candidates_from v new = cs"
        by blast
      then have "calls st' = calls st @ (ScrollCall q (limit * 2) (Inr None) # new)
          \<and> acc' = foldl merge acc cs
          \<and> (\<forall>v. spec_candidates_from v (ScrollCall q (limit * 2) (Inr None) # new) = cs)"
        using c1 Inr None by simp
      then show ?thesis by blast
    next
      case (Some pts)
      with Inr sc Cons.prems
      have "addFullTextResults svc qs (foldl (full_text_point q) acc pts) limit st1 = (acc', st')"
        by simp
      from Cons.IH[OF this] obtain new cs where
        "calls st' = calls st1 @ new" "acc' = foldl merge (foldl (full_text_point q) acc pts) cs"
        "\<forall>v. spec_candidates_from v new = cs"
        by blast
      then have "calls st' = calls st @ (ScrollCall q (limit * 2) (Inr (Some pts)) # new)
          \<and> acc' = foldl merge acc (map (\<lambda>p. spec_hit
                 (if includes_str (toLowerCase (payload_text p)) (toLowerCase q)
                  then js_add (calculateTextScore q p) (fl (2 / 10)) else calculateTextScore q p)
                 q full_text p) pts @ cs)
          \<and> (\<forall>v. spec_candidates_from v (ScrollCall q (limit * 2) (Inr (Some pts)) # new) =
                 map (\<lambda>p. spec_hit
                 (if includes_str (toLowerCase (payload_text p)) (toLowerCase q)
                  then js_add (calculateTextScore q p) (fl (2 / 10)) else calculateTextScore q p)
                 q full_text p) pts @ cs)"
        using c1 Inr Some by (simp add: foldl_full_text_merge)
      then show ?thesis by blast
    qed
  qed
qed

lemma search_merge:
  assumes "fst (search svc year query limit st) = Inr hits"
  shows "hits = take limit (sort_by_score (map snd (foldl merge []
           (spec_candidates (drop (length (calls st)) (calls (snd (search svc year query limit st))))))))"
proof -
  obtain r st1 where sl: "semantic_leg svc limit (expandQuery year query) [] st = (r, st1)"
    by (cases "semantic_leg svc limit (expandQuery year query) [] st")
  show ?thesis
  proof (cases r)
    case (Inl e)
    with sl assms show ?thesis by (simp add: search_def)
  next
    case (Inr acc)
    obtain acc' st2 where ft: "addFullTextResults svc (expandQuery year query) acc limit st1 = (acc', st2)"
      by (cases "addFullTextResults svc (expandQuery year query) acc limit st1")
    from semantic_leg_trace[OF sl[unfolded Inr]] obtain new1 cs1 where
      s1: "calls st1 = calls st @ new1" and s2: "acc = foldl merge [] cs1" and
      s3: "\<forall>v tail. \<exists>v'. spec_candidates_from v (new1 @ tail) = cs1 @ spec_candidates_from v' tail"
      by blast
    from addFullTextResults_trace[OF ft] obtain new2 cs2 where
      f1: "calls st2 = calls st1 @ new2" and f2: "acc' = foldl merge acc cs2" and
      f3: "\<forall>v. spec_candidates_from v new2 = cs2"
      by blast
    have res: "search svc year query limit st = (Inr (take limit (sort_by_score (map snd acc'))), st2)"
      using sl Inr ft by (simp add: search_def)
    have h: "hits = take limit (sort_by_score (map snd acc'))" using assms res by simp
    have "drop (length (calls st)) (calls st2) = new1 @ new2" using s1 f1 by simp
    moreover from s3 obtain v' where "spec_candidates_from [] (new1 @ new2) = cs1 @ spec_candidates_from v' new2"
      by blast
    ultimately have "spec_candidates (drop (length (calls st)) (calls st2)) = cs1 @ cs2"
      using f3 by (simp add: spec_candidates_def)
    moreover have "acc' = foldl merge [] (cs1 @ cs2)" using s2 f2 by simp
    ultimately show ?thesis using h res by simp
  qed
qed

lemma set_update_subset: "set (AList.update k v al) \<subseteq> insert (k, v) (set al)"
  by (induction al) auto

lemma acc_ok_set_if_better:
  assumes "acc_ok acc" "k = result_key h"
  shows "acc_ok (set_if_better k h acc)"
proof -
  have "acc_ok (AList.update k h acc)"
    using assms set_update_subset[of k h acc]
    by (auto simp: acc_ok_def distinct_update)
  then show ?thesis using assms(1) by (simp add: set_if_better_def split: option.splits)
qed

lemma acc_ok_merge: "acc_ok acc \<Longrightarrow> acc_ok (merge acc c)"
  by (simp add: merge_def acc_ok_set_if_better)

lemma acc_ok_foldl:
  assumes "\<And>a x. acc_ok a \<Longrightarrow> acc_ok (f a x)" "acc_ok acc"
  shows "acc_ok (foldl f acc xs)"
  using assms(2) by (induction xs arbitrary: acc) (simp_all add: assms(1))

lemma acc_ok_foldl_merge: "acc_ok (foldl merge [] cs)"
proof (rule acc_ok_foldl)
  show "\<And>a x. acc_ok a \<Longrightarrow> acc_ok (merge a x)" by (rule acc_ok_merge)
  show "acc_ok []" by (simp add: acc_ok_def)
qed

lemma set_if_better_lookup:
  "map_of (set_if_better k c acc) =
     (if (case map_of acc k of None \<Rightarrow> True | Some old \<Rightarrow> score old < score c)
      then (map_of acc)(k \<mapsto> c) else map_of acc)"
  by (simp add: set_if_better_def update_conv' split: option.splits)

lemma dom_set_if_better: "dom (map_of (set_if_better k c A)) = insert k (dom (map_of A))"
  by (auto simp: set_if_better_lookup split: option.splits if_splits)

lemma dom_foldl_merge: "dom (map_of (foldl merge [] cs)) = result_key ` set cs"
proof (induction cs rule: rev_induct)
  case Nil
  then show ?case by simp
next
  case (snoc c cs)
  have "foldl merge [] (cs @ [c]) = set_if_better (result_key c) c (foldl merge [] cs)"
    by (simp add: merge_def[of "foldl merge [] cs" c])
  then show ?case using snoc by (simp add: dom_set_if_better)
qed

lemma result_key_inj:
  "result_key p = result_key q \<longleftrightarrow> file_path p = file_path q \<and> chunk_index p = chunk_index q"
proof
  assume e: "result_key p = result_key q"
  have nd: "\<not> isDigit CHR ''_''" by (simp add: isDigit_def)
  have n1: "CHR ''_'' \<notin> set (decimal (chunk_index p))" using decimal_digits nd by blast
  have n2: "CHR ''_'' \<notin> set (decimal (chunk_index q))" using decimal_digits nd by blast
  from e have "file_path p @ CHR ''_'' # decimal (chunk_index p)
             = file_path q @ CHR ''_'' # decimal (chunk_index q)"
    by (simp add: result_key_def)
  from split_at_last[OF this n1 n2] show "file_path p = file_path q \<and> chunk_index p = chunk_index q"
    using decimal_inj by blast
next
  assume "file_path p = file_path q \<and> chunk_index p = chunk_index q"
  then show "result_key p = result_key q" by (simp add: result_key_def)
qed

lemma same_chunk_key: "same_chunk a b \<longleftrightarrow> result_key a = result_key b"
  by (simp add: same_chunk_def result_key_inj)

lemma first_best_snoc_other:
  assumes "first_best cs h" "\<not> same_chunk c h"
  shows "first_best (cs @ [c]) h"
proof -
  from assms(1) obtain pre post where
    "cs = pre @ h # post" "\<forall>c\<in>set pre. same_chunk c h \<longrightarrow> score c < score h"
    "\<forall>c\<in>set post. same_chunk c h \<longrightarrow> score c \<le> score h"
    unfolding first_best_def by blast
  then have "cs @ [c] = pre @ h # (post @ [c]) \<and> (\<forall>c\<in>set pre. same_chunk c h \<longrightarrow> score c < score h)
    \<and> (\<forall>c\<in>set (post @ [c]). same_chunk c h \<longrightarrow> score c \<le> score h)"
    using assms(2) by simp
  then show ?thesis unfolding first_best_def by blast
qed

lemma first_best_snoc_le:
  assumes "first_best cs h" "score c \<le> score h"
  shows "first_best (cs @ [c]) h"
proof -
  from assms(1) obtain pre post where
    "cs = pre @ h # post" "\<forall>c\<in>set pre. same_chunk c h \<longrightarrow> score c < score h"
    "\<forall>c\<in>set post. same_chunk c h \<longrightarrow> score c \<le> score h"
    unfolding first_best_def by blast
  then have "cs @ [c] = pre @ h # (post @ [c]) \<and> (\<forall>c\<in>set pre. same_chunk c h \<longrightarrow> score c < score h)
    \<and> (\<forall>c\<in>set (post @ [c]). same_chunk c h \<longrightarrow> score c \<le> score h)"
    using assms(2) by simp
  then show ?thesis unfolding first_best_def by blast
qed

lemma first_best_new:
  assumes "\<forall>c'\<in>set cs. same_chunk c' c \<longrightarrow> score c' < score c"
  shows "first_best (cs @ [c]) c"
proof -
  have "cs @ [c] = cs @ c # [] \<and> (\<forall>c'\<in>set cs. same_chunk c' c \<longrightarrow> score c' < score c)
    \<and> (\<forall>c'\<in>set []. same_chunk c' c \<longrightarrow> score c' \<le> score c)"
    using assms by simp
  then show ?thesis unfolding first_best_def by blast
qed

lemma first_best_bound:
  assumes "first_best cs h" "c \<in> set cs" "same_chunk c h"
  shows "score c \<le> score h"
proof -
  from assms(1) obtain pre post where
    cs: "cs = pre @ h # post" and a: "\<forall>c\<in>set pre. same_chunk c h \<longrightarrow> score c < score h"
    and b: "\<forall>c\<in>set post. same_chunk c h \<longrightarrow> score c \<le> score h"
    unfolding first_best_def by blast
  from assms(2) cs have "c \<in> set pre \<or> c = h \<or> c \<in> set post" by auto
  then show ?thesis using a b assms(3) by (auto simp: less_imp_le)
qed

lemma foldl_merge_best:
  "map_of (foldl merge [] cs) k = Some h \<Longrightarrow> result_key h = k \<and> first_best cs h"
proof (induction cs arbitrary: k h rule: rev_induct)
  case Nil
  then show ?case by simp
next
  case (snoc c cs)
  let ?A = "foldl merge [] cs"
  let ?kc = "result_key c"
  have look: "map_of (set_if_better ?kc c ?A) k = Some h"
    using snoc.prems by (simp add: merge_def[of "foldl merge [] cs" c])
  show ?case
  proof (cases "k = ?kc")
    case False
    then have "map_of ?A k = Some h"
      using look by (simp add: set_if_better_lookup split: if_splits)
    from snoc.IH[OF this] have kh: "result_key h = k" and fb: "first_best cs h" by simp_all
    have "\<not> same_chunk c h" using False kh by (simp add: same_chunk_key)
    then show ?thesis using kh fb first_best_snoc_other by blast
  next
    case True
    show ?thesis
    proof (cases "map_of ?A ?kc")
      case None
      then have hc: "h = c" using look True by (simp add: set_if_better_lookup)
      have "?kc \<notin> dom (map_of ?A)" using None by (simp add: domIff)
      then have "?kc \<notin> result_key ` set cs"
        unfolding dom_foldl_merge .
      then have "\<forall>c'\<in>set cs. result_key c' \<noteq> result_key c"
        by (metis imageI)
      then have "\<forall>c'\<in>set cs. same_chunk c' c \<longrightarrow> score c' < score c"
        by (simp add: same_chunk_key)
      then show ?thesis using hc True first_best_new by blast
    next
      case (Some old)
      from snoc.IH[OF Some] have ko: "result_key old = ?kc" and fo: "first_best cs old" by simp_all
      show ?thesis
      proof (cases "score old < score c")
        case lt: True
        then have hc: "h = c" using look \<open>k = ?kc\<close> Some by (simp add: set_if_better_lookup)
        have "\<forall>c'\<in>set cs. same_chunk c' c \<longrightarrow> score c' < score c"
        proof (intro ballI impI)
          fix c' assume "c' \<in> set cs" "same_chunk c' c"
          then have "same_chunk c' old" using ko by (simp add: same_chunk_key)
          from first_best_bound[OF fo \<open>c' \<in> set cs\<close> this] lt show "score c' < score c" by simp
        qed
        then show ?thesis using hc \<open>k = ?kc\<close> first_best_new by blast
      next
        case ge: False
        then have ho: "h = old" using look \<open>k = ?kc\<close> Some by (simp add: set_if_better_lookup)
        have "score c \<le> score old" using ge by simp
        from first_best_snoc_le[OF fo this] show ?thesis using ho ko \<open>k = ?kc\<close> by simp
      qed
    qed
  qed
qed

lemma card_keys:
  "card (result_key ` set (cs :: hit list)) = card ((\<lambda>c. (file_path c, chunk_index c)) ` set cs)"
proof -
  let ?g = "\<lambda>(fp, ci). fp @ ''_'' @ decimal ci"
  let ?pair = "\<lambda>c :: hit. (file_path c, chunk_index c)"
  have eq: "result_key ` set cs = ?g ` (?pair ` set cs)"
    by (auto simp: result_key_def image_iff)
  have "inj_on ?g (?pair ` set cs)"
  proof (rule inj_onI)
    fix x y assume "x \<in> ?pair ` set cs" "y \<in> ?pair ` set cs" "?g x = ?g y"
    then obtain a b where "a \<in> set cs" "b \<in> set cs" "x = ?pair a" "y = ?pair b"
      "result_key a = result_key b"
      by (auto simp: result_key_def)
    then show "x = y" by (simp add: result_key_inj)
  qed
  then show ?thesis unfolding eq by (rule card_image)
qed

lemma acc_ok_length:
  assumes "acc_ok acc"
  shows "length acc = card (dom (map_of acc))"
proof -
  have "distinct (map fst acc)" using assms by (simp add: acc_ok_def)
  then have "card (set (map fst acc)) = length (map fst acc)" by (rule distinct_card)
  then show ?thesis by (simp add: dom_map_of_conv_image_fst)
qed

lemma sort_by_score_set: "set (sort_by_score hs) = set hs"
  by (simp add: sort_by_score_def)

lemma sort_by_score_length: "length (sort_by_score hs) = length hs"
  by (simp add: sort_by_score_def)

lemma search_first_best:
  assumes "fst (search svc year query limit st) = Inr hits"
  shows "length hits = min limit (card ((\<lambda>c. (file_path c, chunk_index c)) `
            set (spec_candidates (drop (length (calls st)) (calls (snd (search svc year query limit st)))))))"
    and "\<forall>h\<in>set hits. first_best
            (spec_candidates (drop (length (calls st)) (calls (snd (search svc year query limit st))))) h"
proof -
  let ?cs = "spec_candidates (drop (length (calls st)) (calls (snd (search svc year query limit st))))"
  let ?A = "foldl merge [] ?cs"
  have h: "hits = take limit (sort_by_score (map snd ?A))" by (rule search_merge[OF assms])
  have ok: "acc_ok ?A" by (rule acc_ok_foldl_merge)
  have "length hits = min limit (length ?A)"
    unfolding h by (simp add: sort_by_score_length min.commute)
  also have "length ?A = card (result_key ` set ?cs)"
    using acc_ok_length[OF ok] dom_foldl_merge[of ?cs] by simp
  finally show "length hits = min limit (card ((\<lambda>c. (file_path c, chunk_index c)) ` set ?cs))"
    by (simp only: card_keys)
  show "\<forall>h\<in>set hits. first_best ?cs h"
  proof
    fix x assume "x \<in> set hits"
    then have "x \<in> set (sort_by_score (map snd ?A))" unfolding h by (rule in_set_takeD)
    then have "x \<in> snd ` set ?A" by (simp add: sort_by_score_set)
    then obtain k where "(k, x) \<in> set ?A" by auto
    moreover have "distinct (map fst ?A)" using ok by (simp add: acc_ok_def)
    ultimately have "map_of ?A k = Some x" by simp
    from foldl_merge_best[OF this] show "first_best ?cs x" by simp
  qed
qed

lemma result_key_make_hit: "result_key (make_hit s q t p) = result_key p"
  by (simp add: result_key_def make_hit_def)

lemma acc_ok_semantic_point: "acc_ok acc \<Longrightarrow> acc_ok (semantic_point v acc pt)"
  by (simp add: semantic_point_def acc_ok_set_if_better result_key_make_hit)

lemma acc_ok_full_text_point: "acc_ok acc \<Longrightarrow> acc_ok (full_text_point v acc p)"
  by (simp add: full_text_point_def Let_def acc_ok_set_if_better result_key_make_hit)

lemma acc_ok_semantic_leg:
  "semantic_leg svc limit qs acc st = (Inr acc', st') \<Longrightarrow> acc_ok acc \<Longrightarrow> acc_ok acc'"
proof (induction qs arbitrary: acc st)
  case Nil
  then show ?case by simp
next
  case (Cons q qs)
  from Cons.prems(1) obtain v st1 sr st2 where
    "generateEmbedding svc q st = (Inr v, st1)"
    "store_search svc v (limit * 2) st1 = (Inr sr, st2)"
    "semantic_leg svc limit qs (foldl (semantic_point q) acc sr) st2 = (Inr acc', st')"
    by (auto split: prod.splits sum.splits)
  then show ?case
    using Cons.IH Cons.prems(2) acc_ok_foldl[of "semantic_point q", OF acc_ok_semantic_point]
    by blast
qed

lemma acc_ok_addFullTextResults:
  "addFullTextResults svc qs acc limit st = (acc', st') \<Longrightarrow> acc_ok acc \<Longrightarrow> acc_ok acc'"
proof (induction qs arbitrary: acc st)
  case Nil
  then show ?case by simp
next
  case (Cons q qs)
  obtain r st1 where sc: "store_scroll svc q (limit * 2) st = (r, st1)"
    by (cases "store_scroll svc q (limit * 2) st")
  show ?case
  proof (cases r)
    case (Inl e)
    with sc Cons.prems show ?thesis by simp
  next
    case (Inr opt)
    show ?thesis
    proof (cases opt)
      case None
      with Inr sc Cons.prems Cons.IH show ?thesis by simp
    next
      case (Some pts)
      with Inr sc Cons.prems(1)
      have "addFullTextResults svc qs (foldl (full_text_point q) acc pts) limit st1 = (acc', st')"
        by simp
      then show ?thesis
        using Cons.IH Cons.prems(2) acc_ok_foldl[of "full_text_point q", OF acc_ok_full_text_point]
        by blast
    qed
  qed
qed

lemma search_result:
  assumes "fst (search svc year query limit st) = Inr hits"
  shows "\<exists>acc. acc_ok acc \<and> hits = take limit (sort_by_score (map snd acc))"
proof -
  obtain r st1 where sl: "semantic_leg svc limit (expandQuery year query) [] st = (r, st1)"
    by (cases "semantic_leg svc limit (expandQuery year query) [] st")
  show ?thesis
  proof (cases r)
    case (Inl e)
    with sl assms show ?thesis by (simp add: search_def)
  next
    case (Inr acc)
    have ok0: "acc_ok []" by (simp add: acc_ok_def)
    have ok1: "acc_ok acc" using acc_ok_semantic_leg[OF sl[unfolded Inr] ok0] .
    obtain acc' st2 where ft: "addFullTextResults svc (expandQuery year query) acc limit st1 = (acc', st2)"
      by (cases "addFullTextResults svc (expandQuery year query) acc limit st1")
    have ok2: "acc_ok acc'" using acc_ok_addFullTextResults[OF ft ok1] .
    have "hits = take limit (sort_by_score (map snd acc'))"
      using assms sl Inr ft by (simp add: search_def)
    with ok2 show ?thesis by blast
  qed
qed

lemma sorted_sort_by_score: "sorted_wrt (\<lambda>a b. score b \<le> score a) (sort_by_score hs)"
proof -
  have "sorted (map (\<lambda>h. - score h) (sort_key (\<lambda>h. - score h) hs))"
    by (rule sorted_sort_key)
  then show ?thesis by (simp add: sort_by_score_def sorted_map)
qed

text \<open>
  C8. Whenever \<open>search\<close> returns, for any services, year, query, limit and state, it
  returns at most \<open>limit\<close> hits, and no hit has a greater score than one before it.
\<close>

theorem search_limit_sorted:
  assumes "fst (search svc year query limit st) = Inr hits"
  shows "length hits \<le> limit \<and> sorted_wrt (\<lambda>a b. score b \<le> score a) hits"
proof -
  from search_result[OF assms] obtain acc :: "(string \<times> hit) list" where
    h: "hits = take limit (sort_by_score (map snd acc))" by auto
  have "sorted_wrt (\<lambda>a b. score b \<le> score a) (take limit (sort_by_score (map snd acc)))"
    using sorted_sort_by_score by (rule sorted_wrt_take)
  with h show ?thesis by simp
qed

lemma distinct_keys_values:
  assumes "acc_ok acc"
  shows "distinct (map result_key (map snd acc))"
proof -
  have "map result_key (map snd acc) = map fst acc"
    using assms by (auto simp: acc_ok_def)
  moreover have "distinct (map fst acc)" using assms by (simp add: acc_ok_def)
  ultimately show ?thesis by (simp only:)
qed

lemma distinct_map_sort_take:
  assumes "distinct (map f xs)"
  shows "distinct (map f (take n (sort_key g xs)))"
proof -
  have "distinct (map f (sort_key g xs))"
    using assms by (simp add: distinct_map)
  then have "distinct (take n (map f (sort_key g xs)))" by (rule distinct_take)
  then show ?thesis by (simp add: take_map)
qed

lemma search_distinct_keys:
  assumes "fst (search svc year query limit st) = Inr hits"
  shows "distinct (map (\<lambda>h. (file_path h, chunk_index h)) hits)"
proof -
  from search_result[OF assms] obtain acc :: "(string \<times> hit) list" where
    ok: "acc_ok acc" and h: "hits = take limit (sort_by_score (map snd acc))" by auto
  have d: "distinct (map result_key hits)"
    unfolding h sort_by_score_def
    by (rule distinct_map_sort_take) (rule distinct_keys_values[OF ok])
  have "result_key = (\<lambda>(fp, ci). fp @ ''_'' @ decimal ci) \<circ> (\<lambda>h::hit. (file_path h, chunk_index h))"
    by (auto simp: result_key_def fun_eq_iff)
  with d have "distinct (map ((\<lambda>(fp, ci). fp @ ''_'' @ decimal ci) \<circ> (\<lambda>h::hit. (file_path h, chunk_index h))) hits)"
    by simp
  then have "distinct (map (\<lambda>(fp, ci). fp @ ''_'' @ decimal ci) (map (\<lambda>h::hit. (file_path h, chunk_index h)) hits))"
    by (simp only: map_map)
  then show ?thesis by (simp only: distinct_map)
qed

lemma set_if_better_eq:
  "set_if_better k c acc =
     (if (case map_of acc k of None \<Rightarrow> True | Some old \<Rightarrow> score old < score c)
      then AList.update k c acc else acc)"
  by (simp add: set_if_better_def split: option.splits)

lemma two_candidates:
  assumes "map_of acc k = None" "score a < score b"
  shows "map_of (set_if_better k b (set_if_better k a acc)) k = Some b"
    and "map_of (set_if_better k a (set_if_better k b acc)) k = Some b"
  using assms by (simp_all add: set_if_better_lookup)

lemma two_semantic_points:
  assumes "map_of acc (result_key p) = None" "s1 < s2"
  shows "map_of (semantic_point v2 (semantic_point v1 acc \<lparr>sp_score = s1, sp_payload = p\<rparr>)
                   \<lparr>sp_score = s2, sp_payload = p\<rparr>) (result_key p)
           = Some (spec_hit s2 v2 semantic p)"
    and "map_of (semantic_point v1 (semantic_point v2 acc \<lparr>sp_score = s2, sp_payload = p\<rparr>)
                   \<lparr>sp_score = s1, sp_payload = p\<rparr>) (result_key p)
           = Some (spec_hit s2 v2 semantic p)"
  using assms
  by (simp_all add: semantic_point_merge merge_def result_key_spec_hit set_if_better_lookup
      spec_hit_fields)

text \<open>
  C4. The key of \<open>allResults\<close> stands for the pair \<open>(file_path, chunk_index)\<close>: two
  payloads have the same key exactly when they agree on both. The candidate of a point is
  \<open>spec_hit\<close>: its score, the variant as \<open>searchQuery\<close>, the leg as \<open>searchType\<close>,
  and the payload unchanged. The semantic leg stores the candidate of a point, and the
  lexical leg the candidate of a scrolled chunk with its heuristic score, under the key of
  the payload exactly when the key is absent or the stored score is strictly smaller, and
  both leave \<open>allResults\<close> as it is otherwise. For a whole \<open>search\<close> that returns, with
  the candidates read off the requests it has sent: the hits have pairwise different
  \<open>(file_path, chunk_index)\<close>; there is one hit for each pair that has a candidate, up
  to \<open>limit\<close>; and every hit is a candidate, with a score strictly greater than that of
  every earlier candidate for its pair and at least that of every later one. Of two
  semantic points for one fresh key with scores 0.6 and 0.8, in either order, the stored
  hit has the score 0.8, the variant that found it with 0.8 as \<open>searchQuery\<close>, and
  \<open>semantic\<close> as \<open>searchType\<close>; and so for any two hits with these scores.
\<close>

theorem accumulator_key_reduction:
  "(result_key (p1 :: payload) = result_key (p2 :: payload) \<longleftrightarrow>
      file_path p1 = file_path p2 \<and> chunk_index p1 = chunk_index p2)
   \<and> (score (spec_hit s q t p) = s \<and> searchQuery (spec_hit s q t p) = q
      \<and> searchType (spec_hit s q t p) = t \<and> payload.truncate (spec_hit s q t p) = p)
   \<and> semantic_point v acc pt =
     (if (case map_of acc (result_key (sp_payload pt)) of
            None \<Rightarrow> True | Some old \<Rightarrow> score old < sp_score pt)
      then AList.update (result_key (sp_payload pt))
             (spec_hit (sp_score pt) v semantic (sp_payload pt)) acc
      else acc)
   \<and> full_text_point v acc p =
     (let s' = (if includes_str (toLowerCase (payload_text p)) (toLowerCase v)
                then js_add (calculateTextScore v p) (fl (2 / 10)) else calculateTextScore v p)
      in if (case map_of acc (result_key p) of None \<Rightarrow> True | Some old \<Rightarrow> score old < s')
         then AList.update (result_key p) (spec_hit s' v full_text p) acc
         else acc)
   \<and> (fst (search svc year query limit st) = Inr hits \<longrightarrow>
        distinct (map (\<lambda>h. (file_path h, chunk_index h)) hits)
        \<and> length hits = min limit (card ((\<lambda>c. (file_path c, chunk_index c)) `
            set (spec_candidates (drop (length (calls st)) (calls (snd (search svc year query limit st)))))))
        \<and> (\<forall>h\<in>set hits. first_best
            (spec_candidates (drop (length (calls st)) (calls (snd (search svc year query limit st))))) h))
   \<and> (map_of acc (result_key p) = None \<longrightarrow>
        map_of (semantic_point v2 (semantic_point v1 acc \<lparr>sp_score = 6 / 10, sp_payload = p\<rparr>)
                  \<lparr>sp_score = 8 / 10, sp_payload = p\<rparr>) (result_key p)
          = Some (spec_hit (8 / 10) v2 semantic p)
        \<and> map_of (semantic_point v1 (semantic_point v2 acc \<lparr>sp_score = 8 / 10, sp_payload = p\<rparr>)
                  \<lparr>sp_score = 6 / 10, sp_payload = p\<rparr>) (result_key p)
          = Some (spec_hit (8 / 10) v2 semantic p))
   \<and> (map_of acc k = None \<and> score a = 6 / 10 \<and> score b = 8 / 10 \<longrightarrow>
        map_of (set_if_better k b (set_if_better k a acc)) k = Some b \<and>
        map_of (set_if_better k a (set_if_better k b acc)) k = Some b)"
proof -
  have 1: "result_key p1 = result_key p2 \<longleftrightarrow>
      file_path p1 = file_path p2 \<and> chunk_index p1 = chunk_index p2"
    by (rule result_key_inj)
  have 2: "score (spec_hit s q t p) = s \<and> searchQuery (spec_hit s q t p) = q
      \<and> searchType (spec_hit s q t p) = t \<and> payload.truncate (spec_hit s q t p) = p"
    by (simp add: spec_hit_fields)
  have 3: "semantic_point v acc pt =
     (if (case map_of acc (result_key (sp_payload pt)) of
            None \<Rightarrow> True | Some old \<Rightarrow> score old < sp_score pt)
      then AList.update (result_key (sp_payload pt))
             (spec_hit (sp_score pt) v semantic (sp_payload pt)) acc
      else acc)"
    by (simp add: semantic_point_merge merge_def result_key_spec_hit set_if_better_eq
        spec_hit_fields cong: option.case_cong)
  have 4: "full_text_point v acc p =
     (let s' = (if includes_str (toLowerCase (payload_text p)) (toLowerCase v)
                then js_add (calculateTextScore v p) (fl (2 / 10)) else calculateTextScore v p)
      in if (case map_of acc (result_key p) of None \<Rightarrow> True | Some old \<Rightarrow> score old < s')
         then AList.update (result_key p) (spec_hit s' v full_text p) acc
         else acc)"
    by (simp add: full_text_point_merge merge_def result_key_spec_hit set_if_better_eq
        spec_hit_fields Let_def cong: option.case_cong)
  have 5: "fst (search svc year query limit st) = Inr hits \<longrightarrow>
        distinct (map (\<lambda>h. (file_path h, chunk_index h)) hits)
        \<and> length hits = min limit (card ((\<lambda>c. (file_path c, chunk_index c)) `
            set (spec_candidates (drop (length (calls st)) (calls (snd (search svc year query limit st)))))))
        \<and> (\<forall>h\<in>set hits. first_best
            (spec_candidates (drop (length (calls st)) (calls (snd (search svc year query limit st))))) h)"
    using search_distinct_keys search_first_best by blast
  have lt: "(6 / 10 :: rat) < 8 / 10" by simp
  have 6: "map_of acc (result_key p) = None \<longrightarrow>
        map_of (semantic_point v2 (semantic_point v1 acc \<lparr>sp_score = 6 / 10, sp_payload = p\<rparr>)
                  \<lparr>sp_score = 8 / 10, sp_payload = p\<rparr>) (result_key p)
          = Some (spec_hit (8 / 10) v2 semantic p)
        \<and> map_of (semantic_point v1 (semantic_point v2 acc \<lparr>sp_score = 8 / 10, sp_payload = p\<rparr>)
                  \<lparr>sp_score = 6 / 10, sp_payload = p\<rparr>) (result_key p)
          = Some (spec_hit (8 / 10) v2 semantic p)"
    using two_semantic_points[OF _ lt] by blast
  have 7: "map_of acc k = None \<and> score a = 6 / 10 \<and> score b = 8 / 10 \<longrightarrow>
        map_of (set_if_better k b (set_if_better k a acc)) k = Some b \<and>
        map_of (set_if_better k a (set_if_better k b acc)) k = Some b"
  proof
    assume a: "map_of acc k = None \<and> score a = 6 / 10 \<and> score b = 8 / 10"
    then have "score a < score b" by simp
    with a show "map_of (set_if_better k b (set_if_better k a acc)) k = Some b \<and>
        map_of (set_if_better k a (set_if_better k b acc)) k = Some b"
      by (simp add: two_candidates)
  qed
  show ?thesis
    by (rule conjI[OF 1 conjI[OF 2 conjI[OF 3 conjI[OF 4 conjI[OF 5 conjI[OF 6 7]]]]]])
qed

lemma addFullTextResults_all_fail:
  assumes "\<forall>v\<in>set qs. \<forall>w. isl (fst (qdrant_scroll svc v (limit * 2) w))"
  shows "fst (addFullTextResults svc qs acc limit st) = acc"
proof (cases qs)
  case Nil
  then show ?thesis by simp
next
  case (Cons q rest)
  with assms have "isl (fst (qdrant_scroll svc q (limit * 2) (world st)))" by simp
  then obtain e w where "qdrant_scroll svc q (limit * 2) (world st) = (Inl e, w)"
    by (cases "qdrant_scroll svc q (limit * 2) (world st)") (auto simp: isl_def)
  then show ?thesis using Cons by (simp add: store_scroll_def)
qed

lemma semantic_leg_acc_ok:
  assumes "semantic_leg svc limit qs [] st = (Inr acc, st')"
  shows "acc_ok acc"
  using acc_ok_semantic_leg[OF assms] by (simp add: acc_ok_def)

lemma top_of_sorted:
  assumes "sorted_wrt (\<lambda>a b. score b \<le> score a) xs" "h \<in> set xs" "h \<notin> set (take n xs)"
    "k \<in> set (take n xs)"
  shows "score h \<le> score k"
proof -
  have "xs = take n xs @ drop n xs" by simp
  then have s: "sorted_wrt (\<lambda>a b. score b \<le> score a) (take n xs @ drop n xs)"
    using assms(1) by simp
  have "h \<in> set (take n xs) \<or> h \<in> set (drop n xs)"
    using assms(2) by (metis Un_iff append_take_drop_id set_append)
  then have "h \<in> set (drop n xs)" using assms(3) by simp
  with s assms(4) show ?thesis unfolding sorted_wrt_append by blast
qed

text \<open>
  C5. When the semantic leg has gone through with the entries \<open>acc\<close> and the scroll is
  rejected for every variant, \<open>search\<close> does not raise. It returns hits taken from
  \<open>acc\<close>, each once, \<open>limit\<close> of them or all of \<open>acc\<close> when there are fewer; no hit
  has a greater score than one before it, and no entry of \<open>acc\<close> that is left out has a
  greater score than a hit that is returned.
\<close>

theorem lexical_failure_not_fatal:
  assumes "fst (semantic_leg svc limit (expandQuery year query) [] st) = Inr acc"
    and "\<forall>v\<in>set (expandQuery year query). \<forall>w. isl (fst (qdrant_scroll svc v (limit * 2) w))"
  shows "\<exists>hits. fst (search svc year query limit st) = Inr hits
     \<and> hits = take limit (sort_by_score (map snd acc))
     \<and> sorted_wrt (\<lambda>a b. score b \<le> score a) hits
     \<and> length hits = min limit (length acc)
     \<and> distinct hits
     \<and> set hits \<subseteq> snd ` set acc
     \<and> (\<forall>h\<in>snd ` set acc. h \<notin> set hits \<longrightarrow> (\<forall>k\<in>set hits. score h \<le> score k))"
proof -
  let ?hits = "take limit (sort_by_score (map snd acc))"
  obtain st1 where sl: "semantic_leg svc limit (expandQuery year query) [] st = (Inr acc, st1)"
    using assms(1) by (cases "semantic_leg svc limit (expandQuery year query) [] st") simp
  have "fst (addFullTextResults svc (expandQuery year query) acc limit st1) = acc"
    by (rule addFullTextResults_all_fail[OF assms(2)])
  then obtain st2 where "addFullTextResults svc (expandQuery year query) acc limit st1 = (acc, st2)"
    by (cases "addFullTextResults svc (expandQuery year query) acc limit st1") simp
  then have 1: "fst (search svc year query limit st) = Inr ?hits"
    using sl by (simp add: search_def)
  have srt: "sorted_wrt (\<lambda>a b. score b \<le> score a) (sort_by_score (map snd acc))"
    by (rule sorted_sort_by_score)
  then have 2: "sorted_wrt (\<lambda>a b. score b \<le> score a) ?hits" by (rule sorted_wrt_take)
  have 3: "length ?hits = min limit (length acc)"
    by (simp add: sort_by_score_length min.commute)
  have "distinct (map result_key (map snd acc))"
    by (rule distinct_keys_values[OF semantic_leg_acc_ok[OF sl]])
  then have "distinct (map snd acc)" by (simp only: distinct_map)
  then have "distinct (sort_by_score (map snd acc))" by (simp add: sort_by_score_def)
  then have 4: "distinct ?hits" by (rule distinct_take)
  have 5: "set ?hits \<subseteq> snd ` set acc"
    using set_take_subset[of limit "sort_by_score (map snd acc)"] by (simp add: sort_by_score_set)
  have 6: "\<forall>h\<in>snd ` set acc. h \<notin> set ?hits \<longrightarrow> (\<forall>k\<in>set ?hits. score h \<le> score k)"
  proof (intro ballI impI)
    fix h k assume "h \<in> snd ` set acc" "h \<notin> set ?hits" "k \<in> set ?hits"
    moreover from this(1) have "h \<in> set (sort_by_score (map snd acc))"
      by (simp add: sort_by_score_set)
    ultimately show "score h \<le> score k" using top_of_sorted[OF srt] by blast
  qed
  from 1 2 3 4 5 6 show ?thesis by blast
qed

text \<open>
  C4, two runs. The first variant finds the chunk with 0.6, the second with 0.8, the third
  with 0.6 again: the hit returned is the candidate of the second variant, \<open>zzz\<close>. In
  the second run the similarity query finds a chunk with 0.6 and the scroll finds it
  again: the hit returned is the lexical candidate.
\<close>

theorem accumulator_key_reduction_witness:
  "fst (search svc_two_scores 2025 ''zzz yyy'' 10 st0)
     = Inr [note_hit ''a.md'' 0 ''x'' (8 / 10) ''zzz'' semantic]
   \<and> spec_candidates (drop (length (calls st0))
         (calls (snd (search svc_two_scores 2025 ''zzz yyy'' 10 st0))))
     = [note_hit ''a.md'' 0 ''x'' (6 / 10) ''zzz yyy'' semantic,
        note_hit ''a.md'' 0 ''x'' (8 / 10) ''zzz'' semantic,
        note_hit ''a.md'' 0 ''x'' (6 / 10) ''yyy'' semantic]
   \<and> distinct (map (\<lambda>h. (file_path h, chunk_index h))
         [note_hit ''a.md'' 0 ''x'' (8 / 10) ''zzz'' semantic])
   \<and> length [note_hit ''a.md'' 0 ''x'' (8 / 10) ''zzz'' semantic]
     = min 10 (card ((\<lambda>c. (file_path c, chunk_index c)) `
         set [note_hit ''a.md'' 0 ''x'' (6 / 10) ''zzz yyy'' semantic,
              note_hit ''a.md'' 0 ''x'' (8 / 10) ''zzz'' semantic,
              note_hit ''a.md'' 0 ''x'' (6 / 10) ''yyy'' semantic]))
   \<and> first_best
        [note_hit ''a.md'' 0 ''x'' (6 / 10) ''zzz yyy'' semantic,
         note_hit ''a.md'' 0 ''x'' (8 / 10) ''zzz'' semantic,
         note_hit ''a.md'' 0 ''x'' (6 / 10) ''yyy'' semantic]
        (note_hit ''a.md'' 0 ''x'' (8 / 10) ''zzz'' semantic)
   \<and> map_of (semantic_point ''zzz''
         (semantic_point ''zzz yyy'' [] \<lparr>sp_score = 6 / 10, sp_payload = note_payload ''a.md'' 0 ''x''\<rparr>)
         \<lparr>sp_score = 8 / 10, sp_payload = note_payload ''a.md'' 0 ''x''\<rparr>) ''a.md_0''
       = Some (note_hit ''a.md'' 0 ''x'' (8 / 10) ''zzz'' semantic)
   \<and> map_of (semantic_point ''zzz yyy''
         (semantic_point ''zzz'' [] \<lparr>sp_score = 8 / 10, sp_payload = note_payload ''a.md'' 0 ''x''\<rparr>)
         \<lparr>sp_score = 6 / 10, sp_payload = note_payload ''a.md'' 0 ''x''\<rparr>) ''a.md_0''
       = Some (note_hit ''a.md'' 0 ''x'' (8 / 10) ''zzz'' semantic)
   \<and> fst (search svc_both_legs 2025 ''abc'' 10 st0)
     = Inr [note_hit ''n.md'' 0 ''abc'' (5404319552844595 / 4503599627370496) ''abc'' full_text]
   \<and> spec_candidates (drop (length (calls st0))
         (calls (snd (search svc_both_legs 2025 ''abc'' 10 st0))))
     = [note_hit ''n.md'' 0 ''abc'' (6 / 10) ''abc'' semantic,
        note_hit ''n.md'' 0 ''abc'' (5404319552844595 / 4503599627370496) ''abc'' full_text]"
proof -
  let ?h8 = "note_hit ''a.md'' 0 ''x'' (8 / 10) ''zzz'' semantic"
  let ?p = "note_payload ''a.md'' 0 ''x''"
  have run: "fst (search svc_two_scores 2025 ''zzz yyy'' 10 st0) = Inr [?h8]"
    by code_simp
  have cands: "spec_candidates (drop (length (calls st0))
         (calls (snd (search svc_two_scores 2025 ''zzz yyy'' 10 st0))))
     = [note_hit ''a.md'' 0 ''x'' (6 / 10) ''zzz yyy'' semantic, ?h8,
        note_hit ''a.md'' 0 ''x'' (6 / 10) ''yyy'' semantic]"
    by code_simp
  have key: "result_key ?p = ''a.md_0''" by code_simp
  have hit: "spec_hit (8 / 10) ''zzz'' semantic ?p = ?h8" by code_simp
  have fresh: "map_of ([] :: (string \<times> hit) list) (result_key ?p) = None" by simp
  have run2: "fst (search svc_both_legs 2025 ''abc'' 10 st0)
     = Inr [note_hit ''n.md'' 0 ''abc'' (5404319552844595 / 4503599627370496) ''abc'' full_text]"
    by code_simp
  have cands2: "spec_candidates (drop (length (calls st0))
         (calls (snd (search svc_both_legs 2025 ''abc'' 10 st0))))
     = [note_hit ''n.md'' 0 ''abc'' (6 / 10) ''abc'' semantic,
        note_hit ''n.md'' 0 ''abc'' (5404319552844595 / 4503599627370496) ''abc'' full_text]"
    by code_simp
  note T = accumulator_key_reduction[where svc = svc_two_scores and year = 2025
      and query = "''zzz yyy''" and limit = 10 and st = st0 and hits = "[?h8]"
      and acc = "[]" and p = ?p and ?v1.0 = "''zzz yyy''" and ?v2.0 = "''zzz''"]
  note T5 = T[THEN conjunct2, THEN conjunct2, THEN conjunct2, THEN conjunct2, THEN conjunct1]
  note T6 = T[THEN conjunct2, THEN conjunct2, THEN conjunct2, THEN conjunct2, THEN conjunct2,
      THEN conjunct1]
  from T5 run have a: "distinct (map (\<lambda>h. (file_path h, chunk_index h)) [?h8])
        \<and> length [?h8] = min 10 (card ((\<lambda>c. (file_path c, chunk_index c)) `
            set (spec_candidates (drop (length (calls st0))
               (calls (snd (search svc_two_scores 2025 ''zzz yyy'' 10 st0)))))))
        \<and> (\<forall>h\<in>set [?h8]. first_best
            (spec_candidates (drop (length (calls st0))
               (calls (snd (search svc_two_scores 2025 ''zzz yyy'' 10 st0))))) h)"
    by (rule mp)
  from T6 fresh have b: "map_of (semantic_point ''zzz''
         (semantic_point ''zzz yyy'' [] \<lparr>sp_score = 6 / 10, sp_payload = ?p\<rparr>)
         \<lparr>sp_score = 8 / 10, sp_payload = ?p\<rparr>) (result_key ?p)
          = Some (spec_hit (8 / 10) ''zzz'' semantic ?p)
        \<and> map_of (semantic_point ''zzz yyy''
         (semantic_point ''zzz'' [] \<lparr>sp_score = 8 / 10, sp_payload = ?p\<rparr>)
         \<lparr>sp_score = 6 / 10, sp_payload = ?p\<rparr>) (result_key ?p)
          = Some (spec_hit (8 / 10) ''zzz'' semantic ?p)"
    by (rule mp)
  from a have a': "distinct (map (\<lambda>h. (file_path h, chunk_index h)) [?h8])
        \<and> length [?h8] = min 10 (card ((\<lambda>c. (file_path c, chunk_index c)) `
            set [note_hit ''a.md'' 0 ''x'' (6 / 10) ''zzz yyy'' semantic, ?h8,
                 note_hit ''a.md'' 0 ''x'' (6 / 10) ''yyy'' semantic]))
        \<and> first_best [note_hit ''a.md'' 0 ''x'' (6 / 10) ''zzz yyy'' semantic, ?h8,
                 note_hit ''a.md'' 0 ''x'' (6 / 10) ''yyy'' semantic] ?h8"
    unfolding cands by simp
  from b have b': "map_of (semantic_point ''zzz''
         (semantic_point ''zzz yyy'' [] \<lparr>sp_score = 6 / 10, sp_payload = ?p\<rparr>)
         \<lparr>sp_score = 8 / 10, sp_payload = ?p\<rparr>) ''a.md_0'' = Some ?h8
        \<and> map_of (semantic_point ''zzz yyy''
         (semantic_point ''zzz'' [] \<lparr>sp_score = 8 / 10, sp_payload = ?p\<rparr>)
         \<lparr>sp_score = 6 / 10, sp_payload = ?p\<rparr>) ''a.md_0'' = Some ?h8"
    unfolding key hit .
  from run cands a' b' run2 cands2 show ?thesis by (intro conjI) (elim conjE, assumption)+
qed

text \<open>
  C5, a run: the semantic leg finds three chunks with scores 0.6, 0.8 and 0.7, the scroll
  is rejected, and \<open>limit\<close> is 2; the hits with 0.8 and 0.7 are returned, in this order.
\<close>

theorem lexical_failure_not_fatal_witness:
  "fst (semantic_leg svc_three_hits_no_scroll 2 (expandQuery 2025 ''zzz'') [] st0)
     = Inr [(''a.md_0'', note_hit ''a.md'' 0 ''x'' (6 / 10) ''zzz'' semantic),
            (''b.md_0'', note_hit ''b.md'' 0 ''y'' (8 / 10) ''zzz'' semantic),
            (''a.md_1'', note_hit ''a.md'' 1 ''w'' (7 / 10) ''zzz'' semantic)]
   \<and> list_all (\<lambda>v. isl (fst (qdrant_scroll svc_three_hits_no_scroll v (2 * 2) ())))
         (expandQuery 2025 ''zzz'')
   \<and> fst (search svc_three_hits_no_scroll 2025 ''zzz'' 2 st0)
     = Inr [note_hit ''b.md'' 0 ''y'' (8 / 10) ''zzz'' semantic,
            note_hit ''a.md'' 1 ''w'' (7 / 10) ''zzz'' semantic]
   \<and> sorted_wrt (\<lambda>a b. score b \<le> score a)
        [note_hit ''b.md'' 0 ''y'' (8 / 10) ''zzz'' semantic,
         note_hit ''a.md'' 1 ''w'' (7 / 10) ''zzz'' semantic]
   \<and> length [note_hit ''b.md'' 0 ''y'' (8 / 10) ''zzz'' semantic,
             note_hit ''a.md'' 1 ''w'' (7 / 10) ''zzz'' semantic] = min 2 3
   \<and> score (note_hit ''a.md'' 0 ''x'' (6 / 10) ''zzz'' semantic)
       \<le> score (note_hit ''a.md'' 1 ''w'' (7 / 10) ''zzz'' semantic)"
proof -
  let ?h6 = "note_hit ''a.md'' 0 ''x'' (6 / 10) ''zzz'' semantic"
  let ?h8 = "note_hit ''b.md'' 0 ''y'' (8 / 10) ''zzz'' semantic"
  let ?h7 = "note_hit ''a.md'' 1 ''w'' (7 / 10) ''zzz'' semantic"
  let ?acc = "[(''a.md_0'', ?h6), (''b.md_0'', ?h8), (''a.md_1'', ?h7)]"
  have sem: "fst (semantic_leg svc_three_hits_no_scroll 2 (expandQuery 2025 ''zzz'') [] st0) = Inr ?acc"
    by code_simp
  have fails: "\<forall>v\<in>set (expandQuery 2025 ''zzz''). \<forall>w.
      isl (fst (qdrant_scroll svc_three_hits_no_scroll v (2 * 2) w))"
    by (simp add: svc_three_hits_no_scroll_def fixed_services_def)
  have shown: "list_all (\<lambda>v. isl (fst (qdrant_scroll svc_three_hits_no_scroll v (2 * 2) ())))
         (expandQuery 2025 ''zzz'')"
    using fails by (simp add: list_all_iff)
  have run: "fst (search svc_three_hits_no_scroll 2025 ''zzz'' 2 st0) = Inr [?h8, ?h7]"
    by code_simp
  have out: "?h6 \<in> snd ` set ?acc" "?h6 \<notin> set [?h8, ?h7]" "?h7 \<in> set [?h8, ?h7]"
    by (simp_all add: note_hit_def)
  from lexical_failure_not_fatal[OF sem fails] obtain hits where
    h: "fst (search svc_three_hits_no_scroll 2025 ''zzz'' 2 st0) = Inr hits"
    and s: "sorted_wrt (\<lambda>a b. score b \<le> score a) hits"
    and l: "length hits = min 2 (length ?acc)"
    and t: "\<forall>h\<in>snd ` set ?acc. h \<notin> set hits \<longrightarrow> (\<forall>k\<in>set hits. score h \<le> score k)"
    by blast
  from h run have eq: "hits = [?h8, ?h7]" by simp
  from s have s': "sorted_wrt (\<lambda>a b. score b \<le> score a) [?h8, ?h7]" unfolding eq .
  from l have l': "length [?h8, ?h7] = min 2 3" unfolding eq by simp
  from t out have t': "score ?h6 \<le> score ?h7" unfolding eq by blast
  from sem shown run s' l' t' show ?thesis by (intro conjI)
qed

text \<open>
  C8, a run: three chunks are found and \<open>limit\<close> is 2; the two with the greatest
  scores are returned, the greater first.
\<close>

theorem search_limit_sorted_witness:
  "fst (search svc_three_hits 2025 ''zzz'' 2 st0)
     = Inr [make_hit (8 / 10) ''zzz'' semantic (note_payload ''b.md'' 0 ''y''),
            make_hit (7 / 10) ''zzz'' semantic (note_payload ''a.md'' 1 ''w'')]
   \<and> length [make_hit (8 / 10) ''zzz'' semantic (note_payload ''b.md'' 0 ''y''),
            make_hit (7 / 10) ''zzz'' semantic (note_payload ''a.md'' 1 ''w'')] \<le> 2
   \<and> sorted_wrt (\<lambda>a b. score b \<le> score a)
        [make_hit (8 / 10) ''zzz'' semantic (note_payload ''b.md'' 0 ''y''),
         make_hit (7 / 10) ''zzz'' semantic (note_payload ''a.md'' 1 ''w'')]"
proof -
  have run: "fst (search svc_three_hits 2025 ''zzz'' 2 st0)
     = Inr [make_hit (8 / 10) ''zzz'' semantic (note_payload ''b.md'' 0 ''y''),
            make_hit (7 / 10) ''zzz'' semantic (note_payload ''a.md'' 1 ''w'')]"
    by code_simp
  from search_limit_sorted[OF run] run show ?thesis by blast
qed

text \<open>
  The sums are those of doubles: for the query \<open>abc abc\<close> and the file \<open>abc.md\<close> the
  score is 0.5 + 0.05 + 0.05, which is 0.6000000000000001.
\<close>

lemma calculateTextScore_rounds:
  "calculateTextScore ''abc abc'' (note_payload ''abc.md'' 0 ''zzz'')
     = 1351079888211149 / 2251799813685248"
  by code_simp

text \<open>
  C1 fails on the code. The query \<open>abc\<close> and a chunk whose text is \<open>abc\<close>:
  \<open>calculateTextScore\<close> adds 0.5 + 0.3 + 0.1 + 0.2 and caps the sum at 1; then
  \<open>addFullTextResults\<close> adds the exact-match 0.2 to the capped value, and the hit that
  \<open>search\<close> returns has the score 1 + 0.2, the double 1.2.
\<close>

theorem lexical_score_exceeds_one:
  "fst (search svc_lexical_hit 2025 ''abc'' 10 st0)
     = Inr [make_hit (5404319552844595 / 4503599627370496) ''abc'' full_text
              (note_payload ''n.md'' 0 ''abc'')]
   \<and> calculateTextScore ''abc'' (note_payload ''n.md'' 0 ''abc'') = 1
   \<and> js_add 1 (fl (2 / 10)) = 5404319552844595 / 4503599627370496
   \<and> \<not> score (make_hit (5404319552844595 / 4503599627370496) ''abc'' full_text
               (note_payload ''n.md'' 0 ''abc'')) \<le> 1"
  by code_simp

text \<open>
  C2 as stated fails: called with the empty query, \<open>search\<close> sends an embedding
  request for the variant \<open>''\<close>, and what it raises is the error of that request.
\<close>

theorem empty_query_reaches_network:
  "search svc_embedding_down 2025 [] 10 st0
     = (Inl (Error ''Ollama API error: 503 Service Unavailable''),
        \<lparr>calls = [EmbedCall [] (Inl (Error ''Ollama API error: 503 Service Unavailable''))],
         world = ()\<rparr>)"
  by code_simp

section \<open>Properties of the indexer\<close>

lemma embed_chunks_trace:
  assumes "embed_chunks svc d chunks i points st = (r, st')"
  shows "\<exists>new. calls st' = calls st @ new \<and> filter isUpsert new = [] \<and>
     (\<forall>t e. EmbedCall t (Inl e) \<in> set new \<longrightarrow> r = Inl e) \<and>
     (\<forall>pts. r = Inr pts \<longrightarrow>
        (\<exists>ps. pts = points @ ps \<and>
           map (payload_text \<circ> payload) ps = map chunk_text chunks \<and>
           map (chunk_index \<circ> payload) ps = [i..<i + length chunks]))"
  using assms
proof (induction chunks arbitrary: i points st)
  case Nil
  then show ?case by auto
next
  case (Cons c rest)
  obtain r1 st1 where ge: "generateEmbedding svc (chunk_text c) st = (r1, st1)"
    by (cases "generateEmbedding svc (chunk_text c) st")
  have c1: "calls st1 = calls st @ [EmbedCall (chunk_text c) r1]"
    by (rule generateEmbedding_calls[OF ge])
  show ?case
  proof (cases r1)
    case (Inl e)
    with ge Cons.prems have "r = Inl e" "st' = st1" by simp_all
    with c1 Inl show ?thesis by auto
  next
    case (Inr v)
    let ?pt = "\<lparr>point_id = generatePointId (doc_id d) i, vector = v,
                 payload = \<lparr>file_path = path d, chunk_index = i, payload_text = chunk_text c,
                    title = Some (extractTitle d), tags = extractTags d,
                    payload_frontmatter = frontmatter d, last_modified = lastModified d\<rparr>\<rparr>"
    have run: "embed_chunks svc d rest (Suc i) (points @ [?pt]) st1 = (r, st')"
      using ge Inr Cons.prems by simp
    from Cons.IH[OF run] obtain new where
      n1: "calls st' = calls st1 @ new" and n2: "filter isUpsert new = []"
      and n3: "\<forall>t e. EmbedCall t (Inl e) \<in> set new \<longrightarrow> r = Inl e"
      and n4: "\<forall>pts. r = Inr pts \<longrightarrow>
        (\<exists>ps. pts = (points @ [?pt]) @ ps \<and>
           map (payload_text \<circ> payload) ps = map chunk_text rest \<and>
           map (chunk_index \<circ> payload) ps = [Suc i..<Suc i + length rest])"
      by blast
    have a: "calls st' = calls st @ (EmbedCall (chunk_text c) r1 # new)"
      using n1 c1 by simp
    have b: "filter isUpsert (EmbedCall (chunk_text c) r1 # new) = []"
      using n2 by simp
    have c: "\<forall>t e. EmbedCall t (Inl e) \<in> set (EmbedCall (chunk_text c) r1 # new) \<longrightarrow> r = Inl e"
      using n3 Inr by auto
    have d: "\<forall>pts. r = Inr pts \<longrightarrow>
        (\<exists>ps. pts = points @ ps \<and>
           map (payload_text \<circ> payload) ps = map chunk_text (c # rest) \<and>
           map (chunk_index \<circ> payload) ps = [i..<i + length (c # rest)])"
    proof (intro allI impI)
      fix pts assume "r = Inr pts"
      with n4 obtain ps where ps: "pts = (points @ [?pt]) @ ps"
        "map (payload_text \<circ> payload) ps = map chunk_text rest"
        "map (chunk_index \<circ> payload) ps = [Suc i..<Suc i + length rest]" by blast
      have e1: "i + length (c # rest) = Suc i + length rest" by simp
      have "[i..<Suc i + length rest] = i # [Suc i..<Suc i + length rest]"
        by (rule upt_conv_Cons) simp
      then have "[i..<i + length (c # rest)] = i # [Suc i..<Suc i + length rest]"
        unfolding e1 .
      with ps show "\<exists>ps. pts = points @ ps \<and>
           map (payload_text \<circ> payload) ps = map chunk_text (c # rest) \<and>
           map (chunk_index \<circ> payload) ps = [i..<i + length (c # rest)]"
        by (intro exI[of _ "?pt # ps"]) (simp del: upt_Suc)
    qed
    from a b c d show ?thesis by blast
  qed
qed

text \<open>
  C6. The requests that \<open>processDocument\<close> sends: if one of them is an embedding
  request that was rejected with \<open>e\<close>, the result is that error and no upsert is among
  them; and in every case there is either no upsert, or exactly one, which carries one
  point per chunk of the document, in order.
\<close>

theorem index_all_or_nothing:
  assumes "processDocument svc document st = (r, st')"
  shows "\<exists>new. calls st' = calls st @ new \<and>
     (\<forall>t e. EmbedCall t (Inl e) \<in> set new \<longrightarrow> r = Inl e \<and> filter isUpsert new = []) \<and>
     (filter isUpsert new = [] \<or>
      (\<exists>ps x. filter isUpsert new = [UpsertCall ps x] \<and>
         map (payload_text \<circ> payload) ps = map chunk_text (chunkDocument document) \<and>
         map (chunk_index \<circ> payload) ps = [0..<length (chunkDocument document)]))"
proof -
  obtain r1 st1 where ec: "embed_chunks svc document (chunkDocument document) 0 [] st = (r1, st1)"
    by (cases "embed_chunks svc document (chunkDocument document) 0 [] st")
  from embed_chunks_trace[OF ec] obtain new where
    n1: "calls st1 = calls st @ new" and n2: "filter isUpsert new = []"
    and n3: "\<forall>t e. EmbedCall t (Inl e) \<in> set new \<longrightarrow> r1 = Inl e"
    and n4: "\<forall>pts. r1 = Inr pts \<longrightarrow>
        (\<exists>ps. pts = [] @ ps \<and>
           map (payload_text \<circ> payload) ps = map chunk_text (chunkDocument document) \<and>
           map (chunk_index \<circ> payload) ps = [0..<0 + length (chunkDocument document)])"
    by blast
  show ?thesis
  proof (cases r1)
    case (Inl e)
    with ec assms have "r = Inl e" "st' = st1" by (simp_all add: processDocument_def)
    with n1 n2 n3 Inl show ?thesis by auto
  next
    case (Inr pts)
    with ec assms have up: "store_upsert svc pts st1 = (r, st')"
      by (simp add: processDocument_def)
    obtain x w where q: "qdrant_upsert svc pts (world st1) = (x, w)"
      by (cases "qdrant_upsert svc pts (world st1)")
    with up have c: "calls st' = calls st1 @ [UpsertCall pts x]"
      by (auto simp: store_upsert_def)
    have noerr: "\<forall>t e. EmbedCall t (Inl e) \<notin> set new" using n3 Inr by auto
    have a: "calls st' = calls st @ (new @ [UpsertCall pts x])" using c n1 by simp
    have b: "filter isUpsert (new @ [UpsertCall pts x]) = [UpsertCall pts x]" using n2 by simp
    have d: "map (payload_text \<circ> payload) pts = map chunk_text (chunkDocument document) \<and>
         map (chunk_index \<circ> payload) pts = [0..<length (chunkDocument document)]"
      using n4 Inr by simp
    have e: "\<forall>t e. EmbedCall t (Inl e) \<notin> set (new @ [UpsertCall pts x])" using noerr by simp
    from a b d e show ?thesis by blast
  qed
qed

lemma two_chunk_doc_chunks:
  "chunkDocument two_chunk_doc =
     [\<lparr>chunk_text = replicate 600 (CHR ''a''), chunk_start = 0\<rparr>,
      \<lparr>chunk_text = replicate 100 (CHR ''a'') @ replicate 600 (CHR ''b''), chunk_start = 900\<rparr>]"
  unfolding two_chunk_doc_def by (rule two_paragraph_chunks(1)) simp

lemma two_chunk_run:
  "processDocument svc_embedding_rejects_b two_chunk_doc st0 =
     (Inl (Error ''Ollama API error: 500 Internal Server Error''),
      \<lparr>calls = [EmbedCall (replicate 600 (CHR ''a'')) (Inr [1]),
                EmbedCall (replicate 100 (CHR ''a'') @ replicate 600 (CHR ''b''))
                  (Inl (Error ''Ollama API error: 500 Internal Server Error''))],
       world = ()\<rparr>)"
  unfolding processDocument_def two_chunk_doc_chunks Let_def
  by (simp add: generateEmbedding_def svc_embedding_rejects_b_def fixed_services_def st0_def)

text \<open>
  C6, a run: a document of two chunks; the embedding of the first chunk is accepted, that
  of the second is rejected. \<open>processDocument\<close> returns the error, and the requests it
  has sent are the two embedding requests and no upsert.
\<close>

theorem index_all_or_nothing_witness:
  "processDocument svc_embedding_rejects_b two_chunk_doc st0 =
     (Inl (Error ''Ollama API error: 500 Internal Server Error''),
      \<lparr>calls = [EmbedCall (replicate 600 (CHR ''a'')) (Inr [1]),
                EmbedCall (replicate 100 (CHR ''a'') @ replicate 600 (CHR ''b''))
                  (Inl (Error ''Ollama API error: 500 Internal Server Error''))],
       world = ()\<rparr>)
   \<and> filter isUpsert
        [EmbedCall (replicate 600 (CHR ''a'')) (Inr [1]),
         EmbedCall (replicate 100 (CHR ''a'') @ replicate 600 (CHR ''b''))
           (Inl (Error ''Ollama API error: 500 Internal Server Error''))] = []"
proof -
  let ?e = "Error ''Ollama API error: 500 Internal Server Error''"
  let ?c1 = "EmbedCall (replicate 600 (CHR ''a'')) (Inr [1])"
  let ?c2 = "EmbedCall (replicate 100 (CHR ''a'') @ replicate 600 (CHR ''b'')) (Inl ?e)"
  have run: "processDocument svc_embedding_rejects_b two_chunk_doc st0 =
     (Inl ?e, \<lparr>calls = [?c1, ?c2], world = ()\<rparr>)"
    by (rule two_chunk_run)
  from index_all_or_nothing[OF run] obtain new where
    a: "calls \<lparr>calls = [?c1, ?c2], world = ()\<rparr> = calls st0 @ new"
    and b: "\<forall>t e. EmbedCall t (Inl e) \<in> set new \<longrightarrow>
              (Inl ?e :: error + unit) = Inl e \<and> filter isUpsert new = []"
    by blast
  from a have n: "new = [?c1, ?c2]" by (simp add: st0_def)
  have "?c2 \<in> set new" unfolding n by simp
  with b have "filter isUpsert new = []" by blast
  with run n show ?thesis by simp
qed

section \<open>Properties of the tool layer and of the query expansion\<close>

lemma addFullTextResults_calls:
  "\<exists>rest. calls (snd (addFullTextResults svc qs acc limit st)) = calls st @ rest"
proof (induction qs arbitrary: acc st)
  case Nil
  then show ?case by simp
next
  case (Cons q qs)
  obtain r st1 where sc: "store_scroll svc q (limit * 2) st = (r, st1)"
    by (cases "store_scroll svc q (limit * 2) st")
  have c1: "calls st1 = calls st @ [ScrollCall q (limit * 2) r]"
    by (rule store_scroll_calls[OF sc])
  show ?case
  proof (cases r)
    case (Inl e)
    with sc c1 show ?thesis by simp
  next
    case (Inr opt)
    show ?thesis
    proof (cases opt)
      case None
      from Cons.IH[of acc st1] obtain rest where
        "calls (snd (addFullTextResults svc qs acc limit st1)) = calls st1 @ rest" by blast
      with c1 sc Inr None show ?thesis by simp
    next
      case (Some pts)
      from Cons.IH[of "foldl (full_text_point q) acc pts" st1] obtain rest where
        "calls (snd (addFullTextResults svc qs (foldl (full_text_point q) acc pts) limit st1))
           = calls st1 @ rest" by blast
      with c1 sc Inr Some show ?thesis by simp
    qed
  qed
qed

lemma expandQuery_empty: "expandQuery year [] = [[]]"
  by (simp add: expandQuery_def toLowerCase_def date_match_def date_at_def word_boundary_def
      next_unit_def split_ws_def new_Set_def)

lemma search_empty_first_call:
  "\<exists>rest. calls (snd (search svc year [] limit st))
      = calls st @ EmbedCall [] (fst (embeddings svc [] (world st))) # rest"
proof -
  obtain r w where em: "embeddings svc [] (world st) = (r, w)"
    by (cases "embeddings svc [] (world st)")
  let ?st1 = "\<lparr>calls = calls st @ [EmbedCall [] r], world = w\<rparr>"
  have ge: "generateEmbedding svc [] st = (r, ?st1)"
    by (simp add: generateEmbedding_def em)
  show ?thesis
  proof (cases r)
    case (Inl e)
    then show ?thesis using ge em by (simp add: search_def expandQuery_empty)
  next
    case (Inr v)
    obtain r2 st2 where ss: "store_search svc v (limit * 2) ?st1 = (r2, st2)"
      by (cases "store_search svc v (limit * 2) ?st1")
    have c2: "calls st2 = calls ?st1 @ [SearchCall v (limit * 2) r2]"
      by (rule store_search_calls[OF ss])
    show ?thesis
    proof (cases r2)
      case (Inl e)
      then show ?thesis using ge em Inr ss c2 by (simp add: search_def expandQuery_empty)
    next
      case (Inr found)
      obtain acc' st3 where ft:
        "addFullTextResults svc [[]] (foldl (semantic_point []) [] found) limit st2 = (acc', st3)"
        by (cases "addFullTextResults svc [[]] (foldl (semantic_point []) [] found) limit st2")
      obtain rest where "calls st3 = calls st2 @ rest"
        using addFullTextResults_calls[of svc "[[]]" "foldl (semantic_point []) [] found" limit st2] ft
        by auto
      then show ?thesis using ge em \<open>r = Inr v\<close> ss c2 Inr ft
        by (simp add: search_def expandQuery_empty del: addFullTextResults.simps)
    qed
  qed
qed

lemma search_empty_error:
  assumes "fst (search svc year [] limit st) = Inl e"
  shows "fst (embeddings svc [] (world st)) = Inl e
     \<or> (\<exists>v w. embeddings svc [] (world st) = (Inr v, w)
            \<and> fst (qdrant_search svc v (limit * 2) w) = Inl e)"
proof -
  obtain r w where em: "embeddings svc [] (world st) = (r, w)"
    by (cases "embeddings svc [] (world st)")
  let ?st1 = "\<lparr>calls = calls st @ [EmbedCall [] r], world = w\<rparr>"
  have ge: "generateEmbedding svc [] st = (r, ?st1)"
    by (simp add: generateEmbedding_def em)
  show ?thesis
  proof (cases r)
    case (Inl e')
    then show ?thesis using ge em assms by (simp add: search_def expandQuery_empty)
  next
    case (Inr v)
    obtain r2 w2 where qs: "qdrant_search svc v (limit * 2) w = (r2, w2)"
      by (cases "qdrant_search svc v (limit * 2) w")
    let ?st2 = "\<lparr>calls = calls ?st1 @ [SearchCall v (limit * 2) r2], world = w2\<rparr>"
    have ss: "store_search svc v (limit * 2) ?st1 = (r2, ?st2)"
      by (simp add: store_search_def qs)
    show ?thesis
    proof (cases r2)
      case (Inl e2)
      then have "fst (search svc year [] limit st) = Inl e2"
        using ge Inr ss by (simp add: search_def expandQuery_empty)
      with assms have "e2 = e" by simp
      then show ?thesis using em Inr qs Inl by simp
    next
      case (Inr found)
      then have "\<not> isl (fst (search svc year [] limit st))"
        using ge \<open>r = Inr v\<close> ss
        by (simp add: search_def expandQuery_empty split: prod.splits del: addFullTextResults.simps)
      with assms show ?thesis by simp
    qed
  qed
qed

text \<open>
  C2 (amended). \<open>search\<close> does not look at its arguments: the empty query expands to
  the single variant \<open>''\<close>, the first request it sends is the embedding request for
  that variant, and what it raises is the error of that request or, when the embedding
  came back, the error of the similarity query for it. The empty or absent query is
  rejected in front of it, by \<open>handleSearchNotes\<close>, with \<open>InvalidParams\<close> and before
  anything is sent; a request without arguments fails earlier still, with the
  \<open>TypeError\<close> of the destructuring, and nothing is sent either.
\<close>

theorem empty_query_rejected_by_tool_layer:
  "expandQuery year [] = [[]]
   \<and> (\<exists>rest. calls (snd (search svc year [] limit st))
         = calls st @ EmbedCall [] (fst (embeddings svc [] (world st))) # rest)
   \<and> (\<forall>e. fst (search svc year [] limit st) = Inl e \<longrightarrow>
         fst (embeddings svc [] (world st)) = Inl e
         \<or> (\<exists>v w. embeddings svc [] (world st) = (Inr v, w)
                \<and> fst (qdrant_search svc v (limit * 2) w) = Inl e))
   \<and> handleSearchNotes svc year (Some \<lparr>arg_query = Some [], arg_limit = l\<rparr>) st
       = (Inl (McpError InvalidParams ''Query parameter is required''), st)
   \<and> handleSearchNotes svc year (Some \<lparr>arg_query = None, arg_limit = l\<rparr>) st
       = (Inl (McpError InvalidParams ''Query parameter is required''), st)
   \<and> handleSearchNotes svc year None st
       = (Inl (TypeError ''Cannot destructure property 'query' of 'args' as it is undefined.''), st)"
proof -
  have 1: "expandQuery year [] = [[]]" by (rule expandQuery_empty)
  have 2: "\<exists>rest. calls (snd (search svc year [] limit st))
         = calls st @ EmbedCall [] (fst (embeddings svc [] (world st))) # rest"
    by (rule search_empty_first_call)
  have 3: "\<forall>e. fst (search svc year [] limit st) = Inl e \<longrightarrow>
         fst (embeddings svc [] (world st)) = Inl e
         \<or> (\<exists>v w. embeddings svc [] (world st) = (Inr v, w)
                \<and> fst (qdrant_search svc v (limit * 2) w) = Inl e)"
    using search_empty_error by blast
  have 4: "handleSearchNotes svc year (Some \<lparr>arg_query = Some [], arg_limit = l\<rparr>) st
       = (Inl (McpError InvalidParams ''Query parameter is required''), st)"
    by (simp add: handleSearchNotes_def)
  have 5: "handleSearchNotes svc year (Some \<lparr>arg_query = None, arg_limit = l\<rparr>) st
       = (Inl (McpError InvalidParams ''Query parameter is required''), st)"
    by (simp add: handleSearchNotes_def)
  have 6: "handleSearchNotes svc year None st
       = (Inl (TypeError ''Cannot destructure property 'query' of 'args' as it is undefined.''), st)"
    by (simp add: handleSearchNotes_def)
  show ?thesis
    by (rule conjI[OF 1 conjI[OF 2 conjI[OF 3 conjI[OF 4 conjI[OF 5 6]]]]])
qed

text \<open>
  C2 (amended), a run: the embedding service answers the request for the variant \<open>''\<close>
  and the store rejects the similarity query; \<open>search\<close> raises the error of the store
  after these two requests. The handler, given the empty query or no arguments at all,
  raises and leaves the trace empty.
\<close>

theorem empty_query_rejected_by_tool_layer_witness:
  "fst (search svc_store_down 2025 [] 10 st0) = Inl (Error ''Service Unavailable'')
   \<and> calls (snd (search svc_store_down 2025 [] 10 st0))
       = [EmbedCall [] (Inr []), SearchCall [] 20 (Inl (Error ''Service Unavailable''))]
   \<and> (\<exists>v w. embeddings svc_store_down [] (world st0) = (Inr v, w)
          \<and> fst (qdrant_search svc_store_down v (10 * 2) w) = Inl (Error ''Service Unavailable''))
   \<and> handleSearchNotes svc_store_down 2025 (Some \<lparr>arg_query = Some [], arg_limit = None\<rparr>) st0
       = (Inl (McpError InvalidParams ''Query parameter is required''), \<lparr>calls = [], world = ()\<rparr>)
   \<and> handleSearchNotes svc_store_down 2025 None st0
       = (Inl (TypeError ''Cannot destructure property 'query' of 'args' as it is undefined.''),
          \<lparr>calls = [], world = ()\<rparr>)"
proof -
  have run: "fst (search svc_store_down 2025 [] 10 st0) = Inl (Error ''Service Unavailable'')"
    by code_simp
  have trace: "calls (snd (search svc_store_down 2025 [] 10 st0))
       = [EmbedCall [] (Inr []), SearchCall [] 20 (Inl (Error ''Service Unavailable''))]"
    by code_simp
  have emb: "fst (embeddings svc_store_down [] (world st0)) \<noteq> Inl (Error ''Service Unavailable'')"
    by (simp add: svc_store_down_def fixed_services_def)
  have st: "st0 = \<lparr>calls = [], world = ()\<rparr>" by (simp add: st0_def)
  note T = empty_query_rejected_by_tool_layer[where svc = svc_store_down and year = 2025
      and limit = 10 and st = st0 and l = None]
  from T run emb have a: "\<exists>v w. embeddings svc_store_down [] (world st0) = (Inr v, w)
          \<and> fst (qdrant_search svc_store_down v (10 * 2) w) = Inl (Error ''Service Unavailable'')"
    by blast
  from T have b: "handleSearchNotes svc_store_down 2025 (Some \<lparr>arg_query = Some [], arg_limit = None\<rparr>) st0
       = (Inl (McpError InvalidParams ''Query parameter is required''), st0)"
    by blast
  from T have c: "handleSearchNotes svc_store_down 2025 None st0
       = (Inl (TypeError ''Cannot destructure property 'query' of 'args' as it is undefined.''), st0)"
    by blast
  from run trace a b[unfolded st] c[unfolded st] show ?thesis
    unfolding st by (intro conjI)
qed

text \<open>
  C7 as stated fails: the same query expanded in 2025 and in 2026 gives different
  variants, because a matched date is completed with the year read from the clock.
\<close>

theorem expandQuery_year_counterexample:
  "''2025-07-04'' \<in> set (expandQuery 2025 ''july 4'')
   \<and> ''2025-07-04'' \<notin> set (expandQuery 2026 ''july 4'')"
  by code_simp

text \<open>
  C7 (amended). \<open>expandQuery\<close> is a function of the query and of the calendar year
  at the time of the call, and of nothing else; when the query has no month-and-day
  pattern the year is not used, and the variants are the same in any two years.
\<close>

theorem expandQuery_year_independent:
  assumes "date_match (toLowerCase query) = None"
  shows "expandQuery y1 query = expandQuery y2 query"
  using assms by (simp add: expandQuery_def)

text \<open>
  C7, an instance of the amended claim: \<open>meeting notes\<close> has no date, and expands the
  same way in 2025 and in 2026.
\<close>

theorem expandQuery_year_independent_witness:
  "date_match (toLowerCase ''meeting notes'') = None
   \<and> expandQuery 2025 ''meeting notes'' = expandQuery 2026 ''meeting notes''"
proof -
  have m: "date_match (toLowerCase ''meeting notes'') = None" by code_simp
  from expandQuery_year_independent[OF m] m show ?thesis by blast
qed

text \<open>
  C9 fails on the code. The date pattern is matched on the lower-cased query, so the
  variant built from \<open>match[1]\<close> and \<open>match[2]\<close> is \<open>july 4\<close>; in every year the result
  contains that and does not contain \<open>July 4\<close>. The four other variants of the claim
  are there.
\<close>

theorem expand_meeting_on_july_4th:
  "''July 4'' \<notin> set (expandQuery year ''meeting on July 4th'')
   \<and> ''july 4'' \<in> set (expandQuery year ''meeting on July 4th'')
   \<and> ''07-04'' \<in> set (expandQuery year ''meeting on July 4th'')
   \<and> decimal year @ ''-07-04'' \<in> set (expandQuery year ''meeting on July 4th'')
   \<and> ''## Meetings'' \<in> set (expandQuery year ''meeting on July 4th'')
   \<and> ''meeting'' \<in> set (expandQuery year ''meeting on July 4th'')"
proof -
  have m: "date_match (toLowerCase ''meeting on July 4th'') = Some (''july'', ''4'')"
    by code_simp
  have w: "filter (\<lambda>word. length word > 2 \<and> word \<notin> set stopWords)
             (split_ws (toLowerCase ''meeting on July 4th'')) = [''meeting'', ''july'', ''4th'']"
    by code_simp
  have i1: "includes_str (toLowerCase ''meeting on July 4th'') ''meeting''" by code_simp
  have i2: "\<not> includes_str (toLowerCase ''meeting on July 4th'') ''daily''" by code_simp
  have i3: "\<not> includes_str (toLowerCase ''meeting on July 4th'') ''appointment''" by code_simp
  have mc: "month_code ''july'' = ''07''" by code_simp
  have pd: "padStart2 ''4'' = ''04''" by code_simp
  have nd: "\<not> isDigit CHR ''J''" by code_simp
  have e0: "expandQuery year ''meeting on July 4th'' =
     new_Set [''meeting on July 4th'', ''07-04'', decimal year @ ''-07-04'', ''07/04'', ''0704'',
          decimal year @ ''0704'', ''july 4'', ''july-4'', ''04'', ''07'',
          ''07-04'', decimal year @ ''-07-04'', ''07/04'', ''0704'',
          decimal year @ ''0704'', ''july 4'', ''july-4'', ''04'', ''07'', ''meeting'', ''july'',
          ''4th'', ''## Meetings'', ''Meetings & Appointments'', ''meeting notes'',
          ''appointment'', ''Meeting'', ''meetings'', ''07-04 meeting'', ''07-04 Meeting'',
          ''Meeting 07-04'']"
    unfolding expandQuery_def
    by (simp only: Let_def m w i1 i2 i3 mc pd option.case prod.case if_True if_False
        append_Cons append_Nil append_Nil2 append_assoc)
  have e: "set (expandQuery year ''meeting on July 4th'') =
     set [''meeting on July 4th'', ''07-04'', decimal year @ ''-07-04'', ''07/04'', ''0704'',
          decimal year @ ''0704'', ''july 4'', ''july-4'', ''04'', ''07'',
          ''07-04'', decimal year @ ''-07-04'', ''07/04'', ''0704'',
          decimal year @ ''0704'', ''july 4'', ''july-4'', ''04'', ''07'', ''meeting'', ''july'',
          ''4th'', ''## Meetings'', ''Meetings & Appointments'', ''meeting notes'',
          ''appointment'', ''Meeting'', ''meetings'', ''07-04 meeting'', ''07-04 Meeting'',
          ''Meeting 07-04'']"
    unfolding e0 by (rule set_new_Set)
  have n1: "''July 4'' \<noteq> decimal year @ ''-07-04''" by (rule not_decimal_prefix[OF nd])
  have n2: "''July 4'' \<noteq> decimal year @ ''0704''" by (rule not_decimal_prefix[OF nd])
  show ?thesis unfolding e using n1 n2 by simp
qed

section \<open>Properties of the point identity\<close>

lemma length_word_bytes_le: "length (word_bytes_le w) = 4"
  by (simp add: word_bytes_le_def)

lemma length_md5: "length (md5 msg) = 16"
  by (simp add: md5_def Let_def length_word_bytes_le split: prod.splits)

lemma length_hex: "length (hex bs) = 2 * length bs"
  by (induction bs) (simp_all add: hex_def)

lemma hex_digit_range: "d < 16 \<Longrightarrow> hex_digit d \<in> set ''0123456789abcdef''"
proof -
  assume "d < 16"
  then have "d \<in> set [0..<16]" by simp
  moreover have "\<forall>d\<in>set [0..<16]. hex_digit d \<in> set ''0123456789abcdef''"
    by code_simp
  ultimately show ?thesis by blast
qed

lemma set_hex: "set (hex bs) \<subseteq> set ''0123456789abcdef''"
proof -
  have "\<And>b :: byte. unat b div 16 < 16"
  proof -
    fix b :: byte
    have "unat b < 2 ^ LENGTH(8)" by (rule unsigned_less)
    then have "unat b < 256" by simp
    then show "unat b div 16 < 16" by simp
  qed
  moreover have "\<And>b :: byte. unat b mod 16 < 16" by simp
  ultimately have "\<And>b :: byte. set [hex_digit (unat b div 16), hex_digit (unat b mod 16)]
      \<subseteq> set ''0123456789abcdef''"
    using hex_digit_range by (metis empty_set insert_subset list.simps(15) subset_refl empty_subsetI)
  then show ?thesis unfolding hex_def by (induction bs) auto
qed

text \<open>
  C10. \<open>generatePointId\<close> is the hexadecimal MD5 digest of
  \<open>filePath @ "_chunk_" @ chunkIndex\<close>: 32 characters, each a lower-case hexadecimal
  digit, whatever the arguments; it reads nothing but its two arguments, so equal
  arguments give the identical string.
\<close>

theorem point_id_md5_hex:
  "generatePointId filePath chunkIndex
     = hex (md5 (utf8 (filePath @ ''_chunk_'' @ decimal chunkIndex)))
   \<and> length (generatePointId filePath chunkIndex) = 32
   \<and> set (generatePointId filePath chunkIndex) \<subseteq> set ''0123456789abcdef''
   \<and> (filePath' = filePath \<and> chunkIndex' = chunkIndex \<longrightarrow>
        generatePointId filePath' chunkIndex' = generatePointId filePath chunkIndex)"
  by (simp add: generatePointId_def Let_def length_hex length_md5 set_hex del: set_simps)

subsection \<open>The digest on two messages\<close>

text \<open>
  The model of MD5 is run on \<open>abc\<close>, a message of the test suite of RFC 1321, and on
  the input of the identifier of chunk 3 of \<open>daily/2025-07-22.md\<close>. The 64 rounds of
  the one block are evaluated in four groups of 16.
\<close>

lemma rotl32:
  assumes "n < 32"
  shows "word_rotl n (w :: 32 word) = push_bit n w OR drop_bit (32 - n) w"
proof (rule bit_word_eqI)
  fix k assume "k < LENGTH(32)"
  then have k: "k < 32" by simp
  have far: "\<And>j. 32 \<le> j \<Longrightarrow> \<not> bit w j"
    using bit_imp_le_length[of w] by fastforce
  show "bit (word_rotl n w) k = bit (push_bit n w OR drop_bit (32 - n) w) k"
  proof (cases "n \<le> k")
    case True
    then have m: "(k + (32 - n mod 32)) mod 32 = k - n" using assms k by (simp add: mod_if)
    have "\<not> bit w (32 - n + k)" using True assms by (intro far) simp
    with m True k show ?thesis
      by (simp add: bit_word_rotl_iff bit_or_iff bit_push_bit_iff bit_drop_bit_eq)
  next
    case False
    then have m: "(k + (32 - n mod 32)) mod 32 = 32 - n + k" using assms k by simp
    with False k show ?thesis
      by (simp add: bit_word_rotl_iff bit_or_iff bit_push_bit_iff bit_drop_bit_eq)
  qed
qed

lemma replicate_num: "replicate (numeral k) x = x # replicate (pred_numeral k) x"
  by (simp add: numeral_eq_Suc)

lemma upt_0_4: "[0..<4] = [0, 1, 2, 3]"
  by code_simp

lemma upt_0_8: "[0..<8] = [0, 1, 2, 3, 4, 5, 6, 7]"
  by code_simp

lemma upt_0_16: "[0..<16] = [0, 1, 2, 3, 4, 5, 6, 7, 8, 9, 10, 11, 12, 13, 14, 15]"
  by code_simp

lemma upt_0_64_groups: "[0..<64] = [0..<16] @ [16..<32] @ [32..<48] @ [48..<64]"
  by code_simp

lemma hex_digit_values:
  shows "hex_digit 0 = CHR ''0''"
    and "hex_digit 1 = CHR ''1''"
    and "hex_digit (Suc 0) = CHR ''1''"
    and "hex_digit 2 = CHR ''2''"
    and "hex_digit 3 = CHR ''3''"
    and "hex_digit 4 = CHR ''4''"
    and "hex_digit 5 = CHR ''5''"
    and "hex_digit 6 = CHR ''6''"
    and "hex_digit 7 = CHR ''7''"
    and "hex_digit 8 = CHR ''8''"
    and "hex_digit 9 = CHR ''9''"
    and "hex_digit 10 = CHR ''a''"
    and "hex_digit 11 = CHR ''b''"
    and "hex_digit 12 = CHR ''c''"
    and "hex_digit 13 = CHR ''d''"
    and "hex_digit 14 = CHR ''e''"
    and "hex_digit 15 = CHR ''f''"
  by code_simp+

lemma abc_utf8:
  "utf8 ''abc'' =
     [0x61, 0x62, 0x63]"
  by (simp add: utf8_def)

lemma abc_pad:
  "md5_pad [0x61, 0x62, 0x63] =
     [0x61, 0x62, 0x63, 0x80, 0x00, 0x00, 0x00, 0x00, 0x00, 0x00, 0x00, 0x00, 0x00, 0x00,
     0x00, 0x00, 0x00, 0x00, 0x00, 0x00, 0x00, 0x00, 0x00, 0x00, 0x00, 0x00, 0x00, 0x00,
     0x00, 0x00, 0x00, 0x00, 0x00, 0x00, 0x00, 0x00, 0x00, 0x00, 0x00, 0x00, 0x00, 0x00,
     0x00, 0x00, 0x00, 0x00, 0x00, 0x00, 0x00, 0x00, 0x00, 0x00, 0x00, 0x00, 0x00, 0x00,
     0x18, 0x00, 0x00, 0x00, 0x00, 0x00, 0x00, 0x00]"
  by (simp add: md5_pad_def Let_def replicate_num upt_0_8)

lemma abc_blocks:
  "md5_blocks
     (length
         [0x61, 0x62, 0x63, 0x80, 0x00, 0x00, 0x00, 0x00, 0x00, 0x00, 0x00, 0x00, 0x00,
          0x00, 0x00, 0x00, 0x00, 0x00, 0x00, 0x00, 0x00, 0x00, 0x00, 0x00, 0x00, 0x00,
          0x00, 0x00, 0x00, 0x00, 0x00, 0x00, 0x00, 0x00, 0x00, 0x00, 0x00, 0x00, 0x00,
          0x00, 0x00, 0x00, 0x00, 0x00, 0x00, 0x00, 0x00, 0x00, 0x00, 0x00, 0x00, 0x00,
          0x00, 0x00, 0x00, 0x00, 0x18, 0x00, 0x00, 0x00, 0x00, 0x00, 0x00, 0x00] div 64)
     [0x61, 0x62, 0x63, 0x80, 0x00, 0x00, 0x00, 0x00, 0x00, 0x00, 0x00, 0x00, 0x00, 0x00,
     0x00, 0x00, 0x00, 0x00, 0x00, 0x00, 0x00, 0x00, 0x00, 0x00, 0x00, 0x00, 0x00, 0x00,
     0x00, 0x00, 0x00, 0x00, 0x00, 0x00, 0x00, 0x00, 0x00, 0x00, 0x00, 0x00, 0x00, 0x00,
     0x00, 0x00, 0x00, 0x00, 0x00, 0x00, 0x00, 0x00, 0x00, 0x00, 0x00, 0x00, 0x00, 0x00,
     0x18, 0x00, 0x00, 0x00, 0x00, 0x00, 0x00, 0x00] =
     [[0x80636261, 0x00000000, 0x00000000, 0x00000000, 0x00000000, 0x00000000, 0x00000000,
      0x00000000, 0x00000000, 0x00000000, 0x00000000, 0x00000000, 0x00000000, 0x00000000,
      0x00000018, 0x00000000]]"
  by (simp add: le32_def upt_0_16)

lemma abc_rounds_1:
  "foldl (md5_round
          [0x80636261, 0x00000000, 0x00000000, 0x00000000, 0x00000000, 0x00000000,
          0x00000000, 0x00000000, 0x00000000, 0x00000000, 0x00000000, 0x00000000,
          0x00000000, 0x00000000, 0x00000018, 0x00000000])
     (0x67452301, 0xefcdab89, 0x98badcfe, 0x10325476)
     [0..<16] =
     (0xdda9b9a6, 0x72aff2e0, 0xe396856b, 0xa1051895)"
  by (simp add: md5_round_def md5_K_def md5_shifts_def rotl32 Let_def upt_0_16)

lemma abc_rounds_2:
  "foldl (md5_round
          [0x80636261, 0x00000000, 0x00000000, 0x00000000, 0x00000000, 0x00000000,
          0x00000000, 0x00000000, 0x00000000, 0x00000000, 0x00000000, 0x00000000,
          0x00000000, 0x00000000, 0x00000018, 0x00000000])
     (0xdda9b9a6, 0x72aff2e0, 0xe396856b, 0xa1051895)
     [16..<32] =
     (0x790a77fb, 0x726342d3, 0xa62884aa, 0x9f47e4f8)"
  by (simp add: md5_round_def md5_K_def md5_shifts_def rotl32 Let_def upt_0_16)

lemma abc_rounds_3:
  "foldl (md5_round
          [0x80636261, 0x00000000, 0x00000000, 0x00000000, 0x00000000, 0x00000000,
          0x00000000, 0x00000000, 0x00000000, 0x00000000, 0x00000000, 0x00000000,
          0x00000000, 0x00000000, 0x00000018, 0x00000000])
     (0x790a77fb, 0x726342d3, 0xa62884aa, 0x9f47e4f8)
     [32..<48] =
     (0x7f2e507b, 0x7beb9700, 0x8fae6399, 0x99d9679d)"
  by (simp add: md5_round_def md5_K_def md5_shifts_def rotl32 Let_def upt_0_16)

lemma abc_rounds_4:
  "foldl (md5_round
          [0x80636261, 0x00000000, 0x00000000, 0x00000000, 0x00000000, 0x00000000,
          0x00000000, 0x00000000, 0x00000000, 0x00000000, 0x00000000, 0x00000000,
          0x00000000, 0x00000000, 0x00000018, 0x00000000])
     (0x7f2e507b, 0x7beb9700, 0x8fae6399, 0x99d9679d)
     [48..<64] =
     (0x310ade8f, 0xc08226b3, 0xe484b9d8, 0x624d8cb2)"
  by (simp add: md5_round_def md5_K_def md5_shifts_def rotl32 Let_def upt_0_16)

lemma abc_rounds:
  "foldl (md5_round
          [0x80636261, 0x00000000, 0x00000000, 0x00000000, 0x00000000, 0x00000000,
          0x00000000, 0x00000000, 0x00000000, 0x00000000, 0x00000000, 0x00000000,
          0x00000000, 0x00000000, 0x00000018, 0x00000000])
     (0x67452301, 0xefcdab89, 0x98badcfe, 0x10325476) [0..<64] =
     (0x310ade8f, 0xc08226b3, 0xe484b9d8, 0x624d8cb2)"
  unfolding upt_0_64_groups foldl_append abc_rounds_1 abc_rounds_2 abc_rounds_3 abc_rounds_4 ..

lemma abc_block:
  "md5_block (0x67452301, 0xefcdab89, 0x98badcfe, 0x10325476)
     [0x80636261, 0x00000000, 0x00000000, 0x00000000, 0x00000000, 0x00000000, 0x00000000,
     0x00000000, 0x00000000, 0x00000000, 0x00000000, 0x00000000, 0x00000000, 0x00000000,
     0x00000018, 0x00000000] =
     (0x98500190, 0xb04fd23c, 0x7d3f96d6, 0x727fe128)"
  by (simp add: md5_block_def abc_rounds)

lemma abc_digest:
  "md5 (utf8 ''abc'') =
     [0x90, 0x01, 0x50, 0x98, 0x3c, 0xd2, 0x4f, 0xb0, 0xd6, 0x96, 0x3f, 0x7d, 0x28, 0xe1,
     0x7f, 0x72]"
  unfolding md5_def Let_def abc_utf8 abc_pad abc_blocks
  by (simp add: abc_block word_bytes_le_def upt_0_4)

lemma md5_abc: "hex (md5 (utf8 ''abc'')) = ''900150983cd24fb0d6963f7d28e17f72''"
  by (simp add: abc_digest hex_def hex_digit_values)

lemma daily_utf8:
  "utf8 ''daily/2025-07-22.md_chunk_3'' =
     [0x64, 0x61, 0x69, 0x6c, 0x79, 0x2f, 0x32, 0x30, 0x32, 0x35, 0x2d, 0x30, 0x37, 0x2d,
     0x32, 0x32, 0x2e, 0x6d, 0x64, 0x5f, 0x63, 0x68, 0x75, 0x6e, 0x6b, 0x5f, 0x33]"
  by (simp add: utf8_def)

lemma daily_pad:
  "md5_pad [0x64, 0x61, 0x69, 0x6c, 0x79, 0x2f, 0x32, 0x30, 0x32, 0x35, 0x2d, 0x30, 0x37, 0x2d,
     0x32, 0x32, 0x2e, 0x6d, 0x64, 0x5f, 0x63, 0x68, 0x75, 0x6e, 0x6b, 0x5f, 0x33] =
     [0x64, 0x61, 0x69, 0x6c, 0x79, 0x2f, 0x32, 0x30, 0x32, 0x35, 0x2d, 0x30, 0x37, 0x2d,
     0x32, 0x32, 0x2e, 0x6d, 0x64, 0x5f, 0x63, 0x68, 0x75, 0x6e, 0x6b, 0x5f, 0x33, 0x80,
     0x00, 0x00, 0x00, 0x00, 0x00, 0x00, 0x00, 0x00, 0x00, 0x00, 0x00, 0x00, 0x00, 0x00,
     0x00, 0x00, 0x00, 0x00, 0x00, 0x00, 0x00, 0x00, 0x00, 0x00, 0x00, 0x00, 0x00, 0x00,
     0xd8, 0x00, 0x00, 0x00, 0x00, 0x00, 0x00, 0x00]"
  by (simp add: md5_pad_def Let_def replicate_num upt_0_8)

lemma daily_blocks:
  "md5_blocks
     (length
         [0x64, 0x61, 0x69, 0x6c, 0x79, 0x2f, 0x32, 0x30, 0x32, 0x35, 0x2d, 0x30, 0x37,
          0x2d, 0x32, 0x32, 0x2e, 0x6d, 0x64, 0x5f, 0x63, 0x68, 0x75, 0x6e, 0x6b, 0x5f,
          0x33, 0x80, 0x00, 0x00, 0x00, 0x00, 0x00, 0x00, 0x00, 0x00, 0x00, 0x00, 0x00,
          0x00, 0x00, 0x00, 0x00, 0x00, 0x00, 0x00, 0x00, 0x00, 0x00, 0x00, 0x00, 0x00,
          0x00, 0x00, 0x00, 0x00, 0xd8, 0x00, 0x00, 0x00, 0x00, 0x00, 0x00, 0x00] div 64)
     [0x64, 0x61, 0x69, 0x6c, 0x79, 0x2f, 0x32, 0x30, 0x32, 0x35, 0x2d, 0x30, 0x37, 0x2d,
     0x32, 0x32, 0x2e, 0x6d, 0x64, 0x5f, 0x63, 0x68, 0x75, 0x6e, 0x6b, 0x5f, 0x33, 0x80,
     0x00, 0x00, 0x00, 0x00, 0x00, 0x00, 0x00, 0x00, 0x00, 0x00, 0x00, 0x00, 0x00, 0x00,
     0x00, 0x00, 0x00, 0x00, 0x00, 0x00, 0x00, 0x00, 0x00, 0x00, 0x00, 0x00, 0x00, 0x00,
     0xd8, 0x00, 0x00, 0x00, 0x00, 0x00, 0x00, 0x00] =
     [[0x6c696164, 0x30322f79, 0x302d3532, 0x32322d37, 0x5f646d2e, 0x6e756863, 0x80335f6b,
      0x00000000, 0x00000000, 0x00000000, 0x00000000, 0x00000000, 0x00000000, 0x00000000,
      0x000000d8, 0x00000000]]"
  by (simp add: le32_def upt_0_16)

lemma daily_rounds_1:
  "foldl (md5_round
          [0x6c696164, 0x30322f79, 0x302d3532, 0x32322d37, 0x5f646d2e, 0x6e756863,
          0x80335f6b, 0x00000000, 0x00000000, 0x00000000, 0x00000000, 0x00000000,
          0x00000000, 0x00000000, 0x000000d8, 0x00000000])
     (0x67452301, 0xefcdab89, 0x98badcfe, 0x10325476)
     [0..<16] =
     (0x4b3ba159, 0x05068d76, 0x66ed26a5, 0x4b3178c2)"
  by (simp add: md5_round_def md5_K_def md5_shifts_def rotl32 Let_def upt_0_16)

lemma daily_rounds_2:
  "foldl (md5_round
          [0x6c696164, 0x30322f79, 0x302d3532, 0x32322d37, 0x5f646d2e, 0x6e756863,
          0x80335f6b, 0x00000000, 0x00000000, 0x00000000, 0x00000000, 0x00000000,
          0x00000000, 0x00000000, 0x000000d8, 0x00000000])
     (0x4b3ba159, 0x05068d76, 0x66ed26a5, 0x4b3178c2)
     [16..<32] =
     (0x37c281c9, 0xdf3442cb, 0x8c6ff933, 0xb3e262f6)"
  by (simp add: md5_round_def md5_K_def md5_shifts_def rotl32 Let_def upt_0_16)

lemma daily_rounds_3:
  "foldl (md5_round
          [0x6c696164, 0x30322f79, 0x302d3532, 0x32322d37, 0x5f646d2e, 0x6e756863,
          0x80335f6b, 0x00000000, 0x00000000, 0x00000000, 0x00000000, 0x00000000,
          0x00000000, 0x00000000, 0x000000d8, 0x00000000])
     (0x37c281c9, 0xdf3442cb, 0x8c6ff933, 0xb3e262f6)
     [32..<48] =
     (0xd692586c, 0xaa476589, 0x490f0942, 0xc1f21673)"
  by (simp add: md5_round_def md5_K_def md5_shifts_def rotl32 Let_def upt_0_16)

lemma daily_rounds_4:
  "foldl (md5_round
          [0x6c696164, 0x30322f79, 0x302d3532, 0x32322d37, 0x5f646d2e, 0x6e756863,
          0x80335f6b, 0x00000000, 0x00000000, 0x00000000, 0x00000000, 0x00000000,
          0x00000000, 0x00000000, 0x000000d8, 0x00000000])
     (0xd692586c, 0xaa476589, 0x490f0942, 0xc1f21673)
     [48..<64] =
     (0xe4699195, 0x4639e0ee, 0x46ea179a, 0xd9cd0639)"
  by (simp add: md5_round_def md5_K_def md5_shifts_def rotl32 Let_def upt_0_16)

lemma daily_rounds:
  "foldl (md5_round
          [0x6c696164, 0x30322f79, 0x302d3532, 0x32322d37, 0x5f646d2e, 0x6e756863,
          0x80335f6b, 0x00000000, 0x00000000, 0x00000000, 0x00000000, 0x00000000,
          0x00000000, 0x00000000, 0x000000d8, 0x00000000])
     (0x67452301, 0xefcdab89, 0x98badcfe, 0x10325476) [0..<64] =
     (0xe4699195, 0x4639e0ee, 0x46ea179a, 0xd9cd0639)"
  unfolding upt_0_64_groups foldl_append daily_rounds_1 daily_rounds_2 daily_rounds_3 daily_rounds_4 ..

lemma daily_block:
  "md5_block (0x67452301, 0xefcdab89, 0x98badcfe, 0x10325476)
     [0x6c696164, 0x30322f79, 0x302d3532, 0x32322d37, 0x5f646d2e, 0x6e756863, 0x80335f6b,
     0x00000000, 0x00000000, 0x00000000, 0x00000000, 0x00000000, 0x00000000, 0x00000000,
     0x000000d8, 0x00000000] =
     (0x4baeb496, 0x36078c77, 0xdfa4f498, 0xe9ff5aaf)"
  by (simp add: md5_block_def daily_rounds)

lemma daily_digest:
  "md5 (utf8 ''daily/2025-07-22.md_chunk_3'') =
     [0x96, 0xb4, 0xae, 0x4b, 0x77, 0x8c, 0x07, 0x36, 0x98, 0xf4, 0xa4, 0xdf, 0xaf, 0x5a,
     0xff, 0xe9]"
  unfolding md5_def Let_def daily_utf8 daily_pad daily_blocks
  by (simp add: daily_block word_bytes_le_def upt_0_4)

lemma decimal_3: "decimal 3 = ''3''"
  by code_simp

lemma point_id_daily_3:
  "generatePointId ''daily/2025-07-22.md'' 3 = ''96b4ae4b778c073698f4a4dfaf5affe9''"
  unfolding generatePointId_def Let_def decimal_3
  by (simp add: daily_digest hex_def hex_digit_values)

text \<open>
  C10, an instance: the identifier of chunk 3 of \<open>daily/2025-07-22.md\<close> is the MD5
  digest of \<open>daily/2025-07-22.md_chunk_3\<close> in hexadecimal; it has 32 characters, and
  computing it again from equal arguments gives the same string.
\<close>

theorem point_id_md5_hex_witness:
  "(''daily/2025-07-22.md'' = ''daily/2025-07-22.md'' \<and> (3 :: nat) = 3)
   \<and> generatePointId ''daily/2025-07-22.md'' 3 = ''96b4ae4b778c073698f4a4dfaf5affe9''
   \<and> length (generatePointId ''daily/2025-07-22.md'' 3) = 32"
  using point_id_md5_hex[of "''daily/2025-07-22.md''" 3 "''daily/2025-07-22.md''" 3]
    point_id_daily_3
  by blast

end
